theory Spec2Isabelle
  imports Complex_Main
begin

section \<open>The source\<close>

text \<open>
  The theory embeds the prompt converter of the repository, in its revision with
  multiplicative bracket weights:

    \<^item> the module of \<open>src/unnamed/part_002\<close> (imported by the component as
      \<open>utils/converter\<close>): \<open>generateId\<close>, \<open>escapePixAI\<close>, \<open>unescapePixAI\<close>,
      \<open>roundWeight\<close>, \<open>parseNovelAI\<close>, \<open>parsePixAI\<close>, \<open>segmentsToPixAI\<close> and
      \<open>segmentsToNovelAI\<close>;

    \<^item> the effect of the component \<open>Converter\<close> of \<open>src/unnamed/part_000\<close>, which calls
      them on the two input fields;

    \<^item> \<open>ParsedSegment\<close> and \<open>ConversionDirection\<close> of \<open>src/types.ts\<close>.

  The repository also holds an earlier revision of the module, \<open>src/utils/converter.ts\<close>
  (and \<open>src/unnamed/part_003\<close>), where a bracket level adds or takes 0.1, weights are rounded
  to three decimals, the closing brackets of \<open>parseNovelAI\<close> stop at depth zero and a weight
  control token leaves the depths alone; and an earlier \<open>src/components/Converter.tsx\<close> with
  a single input field. Nothing below is about those revisions.
\<close>

section \<open>Strings and characters\<close>

text \<open>
  A JavaScript string is modelled as a \<^typ>\<open>string\<close>: the list of its code units, each
  a \<^typ>\<open>char\<close>, so the model covers the code units 0 to 255. Of the characters that
  \<open>String.prototype.trim\<close> and \<open>parseFloat\<close> strip (WhiteSpace and LineTerminator)
  these are TAB, LF, VT, FF, CR, SPACE and NBSP; of the line terminators that the regular
  expression atom \<open>.\<close> refuses these are LF and CR.
\<close>

definition isSpace :: "char \<Rightarrow> bool" where
  "isSpace c = (c \<in> set [CHR 0x09, CHR 0x0A, CHR 0x0B, CHR 0x0C, CHR 0x0D, CHR 0x20, CHR 0xA0])"

definition isLineTerminator :: "char \<Rightarrow> bool" where
  "isLineTerminator c = (c = CHR 0x0A \<or> c = CHR 0x0D)"

text \<open>The regular expression class \<open>\d\<close>.\<close>

definition isDigit :: "char \<Rightarrow> bool" where
  "isDigit c = (c \<in> set ''0123456789'')"

definition digitVal :: "char \<Rightarrow> nat" where
  "digitVal c = of_char c - 48"

definition digitChar :: "nat \<Rightarrow> char" where
  "digitChar d = ''0123456789'' ! d"

text \<open>\<open>s.trim()\<close>\<close>

definition trim :: "string \<Rightarrow> string" where
  "trim s = rev (dropWhile isSpace (rev (dropWhile isSpace s)))"

text \<open>\<open>xs.join(sep)\<close> on an array of strings.\<close>

fun join :: "string \<Rightarrow> string list \<Rightarrow> string" where
  "join sep [] = []"
| "join sep [x] = x"
| "join sep (x # y # ys) = x @ sep @ join sep (y # ys)"

section \<open>Numbers\<close>

text \<open>
  A JavaScript number is an IEEE 754 double: a finite value, one of the two infinities or
  \<open>NaN\<close>. A finite value is modelled by the rational it denotes. The two zeros are one
  value: the program cannot tell them apart (\<open>-0 === 0\<close>, both are falsy, both print as
  \<open>0\<close>).
\<close>

datatype jsnum = Num rat | PosInf | NegInf | NaN

subsection \<open>Rounding to a double\<close>

text \<open>
  The binary exponent \<open>e\<close> of a rational other than zero: \<open>2^e \<le> |r| < 2^(e+1)\<close>, found
  by halving a number from 2 on and doubling a number below 1.
\<close>

function exponentUp :: "rat \<Rightarrow> int" where
  "exponentUp r = (if 2 \<le> r then exponentUp (r / 2) + 1 else 0)"
  by pat_completeness auto
termination
proof (relation "measure (\<lambda>r. nat \<lceil>r\<rceil>)")
  show "wf (measure (\<lambda>r::rat. nat \<lceil>r\<rceil>))" by simp
next
  fix r :: rat
  assume r: "2 \<le> r"
  have "r / 2 \<le> r - 1" using r by simp
  then have "\<lceil>r / 2\<rceil> \<le> \<lceil>r - 1\<rceil>" by (rule ceiling_mono)
  then have "\<lceil>r / 2\<rceil> < \<lceil>r\<rceil>" by simp
  moreover have "0 < \<lceil>r\<rceil>" using r by (simp add: less_ceiling_iff)
  ultimately show "(r / 2, r) \<in> measure (\<lambda>r. nat \<lceil>r\<rceil>)" by simp
qed

function exponentDown :: "rat \<Rightarrow> int" where
  "exponentDown r = (if 0 < r \<and> r < 1 then exponentDown (2 * r) - 1 else 0)"
  by pat_completeness auto
termination
proof (relation "measure (\<lambda>r. nat \<lceil>1 / r\<rceil>)")
  show "wf (measure (\<lambda>r::rat. nat \<lceil>1 / r\<rceil>))" by simp
next
  fix r :: rat
  assume r: "0 < r \<and> r < 1"
  define y where "y = 1 / r"
  have y: "1 < y" using r by (simp add: y_def)
  have e: "1 / (2 * r) = y / 2" by (simp add: y_def)
  have "\<lceil>y / 2\<rceil> < \<lceil>y\<rceil>"
  proof (cases "y \<le> 2")
    case True
    then have "\<lceil>y / 2\<rceil> \<le> 1" by (simp add: ceiling_le_iff)
    moreover have "1 < \<lceil>y\<rceil>" using y by (simp add: less_ceiling_iff)
    ultimately show ?thesis by linarith
  next
    case False
    then have "y / 2 \<le> y - 1" by simp
    then have "\<lceil>y / 2\<rceil> \<le> \<lceil>y - 1\<rceil>" by (rule ceiling_mono)
    then show ?thesis by simp
  qed
  moreover have "0 < \<lceil>y\<rceil>" using y by (simp add: less_ceiling_iff)
  ultimately show "(2 * r, r) \<in> measure (\<lambda>r. nat \<lceil>1 / r\<rceil>)"
    by (simp add: e y_def [symmetric])
qed

declare exponentUp.simps [simp del] exponentDown.simps [simp del]

definition binaryExponent :: "rat \<Rightarrow> int" where
  "binaryExponent r = (if 1 \<le> \<bar>r\<bar> then exponentUp \<bar>r\<bar> else exponentDown \<bar>r\<bar>)"

text \<open>
  The distance between neighbouring doubles around \<open>r\<close>: 52 binary places below the
  leading one, and \<open>2^-1074\<close> from \<open>2^-1022\<close> down, where the doubles are subnormal.
\<close>

definition quantum :: "rat \<Rightarrow> rat" where
  "quantum r = power_int 2 (max (binaryExponent r) (- 1022) - 52)"

text \<open>The integer nearest to \<open>x\<close>, the even one of two that are equally near.\<close>

definition roundEven :: "rat \<Rightarrow> int" where
  "roundEven x =
     (if x - of_int \<lfloor>x\<rfloor> < 1 / 2 then \<lfloor>x\<rfloor>
      else if 1 / 2 < x - of_int \<lfloor>x\<rfloor> then \<lfloor>x\<rfloor> + 1
      else if even \<lfloor>x\<rfloor> then \<lfloor>x\<rfloor> else \<lfloor>x\<rfloor> + 1)"

text \<open>The multiple of the quantum nearest to \<open>r\<close>, ties to even.\<close>

definition roundTo :: "rat \<Rightarrow> rat" where
  "roundTo r = of_int (roundEven (r / quantum r)) * quantum r"

text \<open>
  Half way between the largest double and \<open>2^1024\<close>: from there on round-to-nearest gives
  an infinity.
\<close>

definition overflowThreshold :: rat where
  "overflowThreshold = 2 ^ 1024 - 2 ^ 970"

text \<open>
  The double that an operation with the exact result \<open>r\<close> returns (round to nearest, ties
  to even), and the rationals that are doubles.
\<close>

definition fromRat :: "rat \<Rightarrow> jsnum" where
  "fromRat r =
     (if overflowThreshold \<le> r then PosInf
      else if r \<le> - overflowThreshold then NegInf
      else Num (roundTo r))"

definition isDouble :: "rat \<Rightarrow> bool" where
  "isDouble q = (\<bar>q\<bar> < overflowThreshold \<and> of_int \<lfloor>q / quantum q\<rfloor> = q / quantum q)"

subsection \<open>Arithmetic\<close>

fun jsSign :: "jsnum \<Rightarrow> int" where
  "jsSign (Num r) = (if r < 0 then - 1 else if r = 0 then 0 else 1)"
| "jsSign PosInf = 1"
| "jsSign NegInf = - 1"
| "jsSign NaN = 0"

definition infOfSign :: "int \<Rightarrow> jsnum" where
  "infOfSign s = (if s = 0 then NaN else if 0 < s then PosInf else NegInf)"

text \<open>\<open>x * y\<close>\<close>

fun js_mul :: "jsnum \<Rightarrow> jsnum \<Rightarrow> jsnum" where
  "js_mul (Num a) (Num b) = fromRat (a * b)"
| "js_mul NaN y = NaN"
| "js_mul x NaN = NaN"
| "js_mul x y = infOfSign (jsSign x * jsSign y)"

text \<open>\<open>x / y\<close>\<close>

fun js_div :: "jsnum \<Rightarrow> jsnum \<Rightarrow> jsnum" where
  "js_div (Num a) (Num b) = (if b = 0 then infOfSign (jsSign (Num a)) else fromRat (a / b))"
| "js_div NaN y = NaN"
| "js_div x NaN = NaN"
| "js_div (Num a) y = Num 0"
| "js_div x (Num b) = infOfSign (jsSign x * (if b < 0 then - 1 else 1))"
| "js_div x y = NaN"

text \<open>
  \<open>Math.pow(b, n)\<close> for a base written as the decimal literal \<open>b\<close> and an integer
  exponent, the only way the program calls it (\<open>Math.pow(1.05, curlyDepth)\<close> and the like).
  The literal denotes the double nearest to \<open>b\<close>. ECMAScript leaves the accuracy of
  \<open>Math.pow\<close> to the implementation; the result here is the correctly rounded power.
\<close>

definition Math_pow :: "rat \<Rightarrow> int \<Rightarrow> jsnum" where
  "Math_pow b n = (case fromRat b of Num d \<Rightarrow> fromRat (power_int d n) | x \<Rightarrow> x)"

text \<open>
  \<open>Math.round(x)\<close>: the integer nearest to \<open>x\<close>, a tie going up. The integer is a
  double whenever \<open>x\<close> is one, so nothing is rounded a second time.
\<close>

fun Math_round :: "jsnum \<Rightarrow> jsnum" where
  "Math_round (Num r) = Num (of_int \<lfloor>r + 1 / 2\<rfloor>)"
| "Math_round x = x"

text \<open>\<open>Math.abs(x)\<close>\<close>

fun Math_abs :: "jsnum \<Rightarrow> jsnum" where
  "Math_abs (Num r) = Num \<bar>r\<bar>"
| "Math_abs NaN = NaN"
| "Math_abs x = PosInf"

text \<open>\<open>isNaN(x)\<close>, \<open>x >= 0\<close>, \<open>x < 0\<close> and the truthiness of a number.\<close>

fun isNaN :: "jsnum \<Rightarrow> bool" where
  "isNaN NaN = True"
| "isNaN x = False"

fun js_ge0 :: "jsnum \<Rightarrow> bool" where
  "js_ge0 (Num r) = (0 \<le> r)"
| "js_ge0 PosInf = True"
| "js_ge0 x = False"

fun js_lt0 :: "jsnum \<Rightarrow> bool" where
  "js_lt0 (Num r) = (r < 0)"
| "js_lt0 NegInf = True"
| "js_lt0 x = False"

fun truthy :: "jsnum \<Rightarrow> bool" where
  "truthy (Num r) = (r \<noteq> 0)"
| "truthy NaN = False"
| "truthy x = True"

text \<open>The property the data model asks of a weight: a finite number.\<close>

fun isFinite :: "jsnum \<Rightarrow> bool" where
  "isFinite (Num r) = True"
| "isFinite x = False"

subsection \<open>Printing a number\<close>

text \<open>
  \<open>String(x)\<close>, as a template literal applies it. For a positive finite \<open>x\<close> ECMAScript
  takes the decimal with the fewest significant digits that reads back as \<open>x\<close> (of two, the
  one nearer to \<open>x\<close>) and prints it plainly when it lies between \<open>10^-6\<close> and \<open>10^21\<close>
  and in exponent notation otherwise.
\<close>

function natDigits :: "nat \<Rightarrow> string" where
  "natDigits n = (if n = 0 then [] else natDigits (n div 10) @ [digitChar (n mod 10)])"
  by pat_completeness auto
termination
  by (relation "measure id") auto

fun fracDigits :: "nat \<Rightarrow> rat \<Rightarrow> string" where
  "fracDigits 0 x = []"
| "fracDigits (Suc n) x =
     (if x = 0 then []
      else digitChar (nat \<lfloor>10 * x\<rfloor>) # fracDigits n (10 * x - of_int \<lfloor>10 * x\<rfloor>))"

definition fracPart :: "rat \<Rightarrow> rat" where
  "fracPart r = r - of_int \<lfloor>r\<rfloor>"

definition plainDecimal :: "rat \<Rightarrow> string" where
  "plainDecimal r =
     (if \<lfloor>r\<rfloor> = 0 then ''0'' else natDigits (nat \<lfloor>r\<rfloor>)) @
     (if fracPart r = 0 then [] else CHR ''.'' # fracDigits 1100 (fracPart r))"

text \<open>The decimal exponent \<open>e\<close> of a positive \<open>r\<close>: \<open>10^e \<le> r < 10^(e+1)\<close>.\<close>

definition decimalExponent :: "rat \<Rightarrow> int" where
  "decimalExponent r =
     (if 1 \<le> r then int (length (natDigits (nat \<lfloor>r\<rfloor>))) - 1
      else - 1 - int (length (takeWhile (\<lambda>c. c = CHR ''0'') (fracDigits 1100 r))))"

definition expDecimal :: "rat \<Rightarrow> string" where
  "expDecimal r =
     (let e = decimalExponent r; m = r * power_int 10 (- e)
      in natDigits (nat \<lfloor>m\<rfloor>) @
         (if fracPart m = 0 then [] else CHR ''.'' # fracDigits 1100 (fracPart m)) @
         ''e'' @ (if e < 0 then ''-'' else ''+'') @ natDigits (nat \<bar>e\<bar>))"

text \<open>
  The decimal of \<open>k\<close> significant digits that reads back as the double \<open>r\<close>, if there is
  one: it is the multiple of the unit of the last digit just below \<open>r\<close> or the one just
  above.
\<close>

definition digitsCandidate :: "rat \<Rightarrow> nat \<Rightarrow> rat option" where
  "digitsCandidate r k =
     (let u = power_int 10 (decimalExponent r + 1 - int k);
          lo = of_int \<lfloor>r / u\<rfloor> * u;
          hi = lo + u
      in if fromRat lo = Num r \<and> fromRat hi = Num r then
           Some (if r - lo < hi - r then lo
                 else if hi - r < r - lo then hi
                 else if even \<lfloor>r / u\<rfloor> then lo else hi)
         else if fromRat lo = Num r then Some lo
         else if fromRat hi = Num r then Some hi
         else None)"

text \<open>
  The search for the fewest digits, from \<open>k\<close> digits on. No double needs more than 17; a
  search that found none in its \<open>n\<close> tries would print the exact expansion of \<open>r\<close>.
\<close>

fun shortestFrom :: "nat \<Rightarrow> nat \<Rightarrow> rat \<Rightarrow> rat" where
  "shortestFrom 0 k r = r"
| "shortestFrom (Suc n) k r =
     (case digitsCandidate r k of Some v \<Rightarrow> v | None \<Rightarrow> shortestFrom n (Suc k) r)"

definition shortestDecimal :: "rat \<Rightarrow> rat" where
  "shortestDecimal r = shortestFrom 17 1 r"

definition posToString :: "rat \<Rightarrow> string" where
  "posToString r =
     (let v = shortestDecimal r
      in if 1 / 10 ^ 6 \<le> v \<and> v < 10 ^ 21 then plainDecimal v else expDecimal v)"

fun numToString :: "jsnum \<Rightarrow> string" where
  "numToString NaN = ''NaN''"
| "numToString PosInf = ''Infinity''"
| "numToString NegInf = ''-Infinity''"
| "numToString (Num r) =
     (if r = 0 then ''0'' else if r < 0 then CHR ''-'' # posToString (- r) else posToString r)"

subsection \<open>Reading a number\<close>

text \<open>The value of a string of decimal digits.\<close>

definition digitsVal :: "string \<Rightarrow> nat" where
  "digitsVal ds = foldl (\<lambda>acc c. 10 * acc + digitVal c) 0 ds"

text \<open>The regular expression fragment \<open>(?:\.\d+)?\<close>: what it matches, and the rest.\<close>

definition fraction :: "string \<Rightarrow> string \<times> string" where
  "fraction s =
     (case s of
        c # t \<Rightarrow>
          if c = CHR ''.'' \<and> takeWhile isDigit t \<noteq> []
          then (c # takeWhile isDigit t, dropWhile isDigit t)
          else ([], s)
      | [] \<Rightarrow> ([], s))"

text \<open>The exponent part of a decimal literal (\<open>e\<close> or \<open>E\<close>, a sign, digits), 0 without one.\<close>

definition exponentPart :: "string \<Rightarrow> int" where
  "exponentPart s =
     (case s of
        c # t \<Rightarrow>
          if c = CHR ''e'' \<or> c = CHR ''E'' then
            (case t of
               d # u \<Rightarrow>
                 if d = CHR ''-'' then - int (digitsVal (takeWhile isDigit u))
                 else if d = CHR ''+'' then int (digitsVal (takeWhile isDigit u))
                 else int (digitsVal (takeWhile isDigit t))
             | [] \<Rightarrow> 0)
          else 0
      | [] \<Rightarrow> 0)"

text \<open>
  The longest prefix of the text that is an unsigned decimal literal (\<open>Infinity\<close>, or
  digits with an optional point and exponent), as a number; \<open>NaN\<close> when there is none.
\<close>

definition parseUnsigned :: "string \<Rightarrow> jsnum" where
  "parseUnsigned s =
     (if take 8 s = ''Infinity'' then PosInf
      else
        let ip = takeWhile isDigit s;
            r1 = dropWhile isDigit s;
            fp = (if take 1 r1 = ''.'' then takeWhile isDigit (drop 1 r1) else []);
            r2 = (if take 1 r1 = ''.'' then dropWhile isDigit (drop 1 r1) else r1)
        in if ip = [] \<and> fp = [] then NaN
           else fromRat (of_nat (digitsVal (ip @ fp)) / 10 ^ length fp *
                         power_int 10 (exponentPart r2)))"

text \<open>\<open>- x\<close>\<close>

fun js_neg :: "jsnum \<Rightarrow> jsnum" where
  "js_neg (Num r) = Num (- r)"
| "js_neg PosInf = NegInf"
| "js_neg NegInf = PosInf"
| "js_neg NaN = NaN"

text \<open>
  \<open>parseFloat(str)\<close>: leading white space is skipped, then a sign and the longest prefix
  that is a decimal literal are read.
\<close>

definition parseFloat :: "string \<Rightarrow> jsnum" where
  "parseFloat str =
     (let s0 = dropWhile isSpace str
      in if take 1 s0 = ''-'' then js_neg (parseUnsigned (drop 1 s0))
         else if take 1 s0 = ''+'' then parseUnsigned (drop 1 s0)
         else parseUnsigned s0)"

section \<open>The segment model\<close>

text \<open>
  \<open>ParsedSegment\<close> of \<open>types.ts\<close>. The fields \<open>id\<close> and \<open>type\<close> are named
  \<open>segId\<close> and \<open>segType\<close> here; the optional fields \<open>content\<close> and \<open>weight\<close> are
  options, \<open>None\<close> for \<open>undefined\<close>.
\<close>

datatype SegmentType = TextSeg | WeightSeg

record ParsedSegment =
  segId :: string
  segType :: SegmentType
  raw :: string
  content :: "string option"
  weight :: "jsnum option"

text \<open>
  \<open>generateId\<close> draws from \<open>Math.random\<close>, the one piece of state the parsers share
  with the rest of the page. The generator is modelled by the sequence of identifiers its
  coming calls return; a call takes the first and leaves the rest.
\<close>

type_synonym rng = "nat \<Rightarrow> string"

definition generateId :: "rng \<Rightarrow> string \<times> rng" where
  "generateId g = (g 0, \<lambda>n. g (Suc n))"

text \<open>A generator whose identifiers are all different, for concrete runs.\<close>

definition sampleIds :: rng where
  "sampleIds n = replicate (Suc n) (CHR ''x'')"

text \<open>\<open>escapePixAI\<close>: \<open>text.replace(/([()])/g, '\\$1')\<close>\<close>

fun escapePixAI :: "string \<Rightarrow> string" where
  "escapePixAI [] = []"
| "escapePixAI (c # cs) =
     (if c = CHR ''('' \<or> c = CHR '')'' then CHR 0x5C # c # escapePixAI cs
      else c # escapePixAI cs)"

text \<open>\<open>unescapePixAI\<close>: \<open>text.replace(/\\([()])/g, '$1')\<close>\<close>

fun unescapePixAI :: "string \<Rightarrow> string" where
  "unescapePixAI (c # d # cs) =
     (if c = CHR 0x5C \<and> (d = CHR ''('' \<or> d = CHR '')'') then d # unescapePixAI cs
      else c # unescapePixAI (d # cs))"
| "unescapePixAI cs = cs"

text \<open>\<open>roundWeight\<close>: \<open>Math.round(num * 100) / 100\<close>\<close>

definition roundWeight :: "jsnum \<Rightarrow> jsnum" where
  "roundWeight num = js_div (Math_round (js_mul num (Num 100))) (Num 100)"

section \<open>parseNovelAI\<close>

text \<open>
  \<open>weightControlRegex = /^(\d*(?:\.\d+)?)?::/\<close> applied to the remaining text: the
  captured number string (empty when the group matched nothing) and the text after the
  match. Every quantifier of the expression is followed by a character it cannot itself
  take, so backtracking never finds a second way to match and the greedy reading below is
  the whole of its behaviour.
\<close>

definition matchWeightControl :: "string \<Rightarrow> (string \<times> string) option" where
  "matchWeightControl s =
     (let ip = takeWhile isDigit s;
          (fp, r) = fraction (dropWhile isDigit s)
      in if take 2 r = ''::'' then Some (ip @ fp, drop 2 r) else None)"

text \<open>
  The local variables of \<open>parseNovelAI\<close>, with the generator. The index \<open>i\<close> is
  represented by the remaining text \<open>text.slice(i)\<close>, which the loop takes as its argument.
\<close>

record naiState =
  segments :: "ParsedSegment list"
  curlyDepth :: int
  squareDepth :: int
  activeBaseWeight :: jsnum
  buffer :: string
  random :: rng

definition finalWeightNovelAI :: "naiState \<Rightarrow> jsnum" where
  "finalWeightNovelAI st =
     roundWeight (js_mul (js_mul (activeBaseWeight st) (Math_pow (105 / 100) (curlyDepth st)))
                         (Math_pow (95 / 100) (squareDepth st)))"

definition flushNovelAI :: "naiState \<Rightarrow> naiState" where
  "flushNovelAI st =
     (let trimmed = trim (buffer st) in
      if trimmed \<noteq> [] then
        let finalWeight = finalWeightNovelAI st;
            (i, g) = generateId (random st)
        in st\<lparr>segments := segments st @
                  [\<lparr>segId = i,
                    segType = (if finalWeight = Num 1 then TextSeg else WeightSeg),
                    raw = trimmed, content = Some trimmed, weight = Some finalWeight\<rparr>],
                buffer := [], random := g\<rparr>
      else st\<lparr>buffer := []\<rparr>)"

text \<open>The body of \<open>if (match)\<close> after the flush: the base weight and the depth reset.\<close>

definition weightControl :: "string \<Rightarrow> naiState \<Rightarrow> naiState" where
  "weightControl numStr st =
     (let st1 =
        (if numStr \<noteq> [] then
           (if \<not> isNaN (parseFloat numStr) then st\<lparr>activeBaseWeight := parseFloat numStr\<rparr>
            else st)
         else st\<lparr>activeBaseWeight := Num 1\<rparr>)
      in st1\<lparr>curlyDepth := 0, squareDepth := 0\<rparr>)"

text \<open>One character that is not the start of a weight control token.\<close>

definition charNovelAI :: "char \<Rightarrow> naiState \<Rightarrow> naiState" where
  "charNovelAI c st =
     (if c = CHR ''{'' then
        (let st1 = flushNovelAI st in st1\<lparr>curlyDepth := curlyDepth st1 + 1\<rparr>)
      else if c = CHR ''}'' then
        (let st1 = flushNovelAI st in st1\<lparr>curlyDepth := curlyDepth st1 - 1\<rparr>)
      else if c = CHR ''['' then
        (let st1 = flushNovelAI st in st1\<lparr>squareDepth := squareDepth st1 + 1\<rparr>)
      else if c = CHR '']'' then
        (let st1 = flushNovelAI st in st1\<lparr>squareDepth := squareDepth st1 - 1\<rparr>)
      else if c = CHR '','' then flushNovelAI st
      else st\<lparr>buffer := buffer st @ [c]\<rparr>)"

lemma fraction_length: "length (snd (fraction s)) \<le> length s"
  by (auto simp: fraction_def split: list.splits
      intro: le_trans [OF length_dropWhile_le] le_SucI)

lemma matchWeightControl_shorter:
  assumes "matchWeightControl s = Some (numStr, rest)"
  shows "length rest < length s"
proof -
  obtain fp r where fr: "fraction (dropWhile isDigit s) = (fp, r)"
    by (cases "fraction (dropWhile isDigit s)")
  from assms fr have r: "take 2 r = ''::''" and rest: "rest = drop 2 r"
    by (auto simp: matchWeightControl_def split: if_splits)
  from r have "2 \<le> length r"
    by (cases r; cases "tl r") auto
  moreover have "length r \<le> length (dropWhile isDigit s)"
    using fraction_length [of "dropWhile isDigit s"] fr by simp
  moreover have "length (dropWhile isDigit s) \<le> length s"
    by (rule length_dropWhile_le)
  ultimately show ?thesis using rest by simp
qed

function naiLoop :: "string \<Rightarrow> naiState \<Rightarrow> naiState" where
  "naiLoop [] st = st"
| "naiLoop (c # cs) st =
     (case matchWeightControl (c # cs) of
        Some (numStr, rest) \<Rightarrow> naiLoop rest (weightControl numStr (flushNovelAI st))
      | None \<Rightarrow> naiLoop cs (charNovelAI c st))"
  by pat_completeness auto
termination
  by (relation "measure (\<lambda>(s, st). length s)")
     (auto dest: matchWeightControl_shorter)

definition initNovelAI :: "rng \<Rightarrow> naiState" where
  "initNovelAI g =
     \<lparr>segments = [], curlyDepth = 0, squareDepth = 0, activeBaseWeight = Num 1,
      buffer = [], random = g\<rparr>"

text \<open>The state when the loop and the last flush are done.\<close>

definition runNovelAI :: "rng \<Rightarrow> string \<Rightarrow> naiState" where
  "runNovelAI g text = flushNovelAI (naiLoop text (initNovelAI g))"

text \<open>\<open>parseNovelAI(text)\<close>: the segments, and the generator as the call leaves it.\<close>

definition parseNovelAI :: "rng \<Rightarrow> string \<Rightarrow> ParsedSegment list \<times> rng" where
  "parseNovelAI g text =
     (if text = [] then ([], g)
      else (segments (runNovelAI g text), random (runNovelAI g text)))"

section \<open>parsePixAI\<close>

text \<open>
  The content group \<open>((?:[^:()\\]|\\.)+)\<close> of \<open>explicitWeightRegex\<close>: the longest run of
  items, an item being one character other than colon, parenthesis and backslash, or a
  backslash with any character after it but a line terminator. The result is the run and the
  text after it. The two kinds of item start with different characters and the colon that
  must follow starts neither, so the longest run is the only one that can lead to a match.
\<close>

fun contentRun :: "string \<Rightarrow> string \<times> string" where
  "contentRun [] = ([], [])"
| "contentRun [c] =
     (if c = CHR 0x5C \<or> c = CHR '':'' \<or> c = CHR ''('' \<or> c = CHR '')'' then ([], [c])
      else ([c], []))"
| "contentRun (c # d # cs) =
     (if c = CHR 0x5C then
        (if isLineTerminator d then ([], c # d # cs)
         else (c # d # fst (contentRun cs), snd (contentRun cs)))
      else if c = CHR '':'' \<or> c = CHR ''('' \<or> c = CHR '')'' then ([], c # d # cs)
      else (c # fst (contentRun (d # cs)), snd (contentRun (d # cs))))"

text \<open>
  \<open>explicitWeightRegex = /^\(((?:[^:()\\]|\\.)+):(\d+(?:\.\d+)?)\)/\<close> applied to the
  remaining text: the two captured groups and the text after the match.
\<close>

definition matchExplicitWeight :: "string \<Rightarrow> (string \<times> string \<times> string) option" where
  "matchExplicitWeight s =
     (if take 1 s = ''('' then
        (let (m, r0) = contentRun (drop 1 s) in
         if m \<noteq> [] \<and> take 1 r0 = '':'' then
           (let ip = takeWhile isDigit (drop 1 r0);
                (fp, r1) = fraction (dropWhile isDigit (drop 1 r0))
            in if ip \<noteq> [] \<and> take 1 r1 = '')'' then Some (m, ip @ fp, drop 1 r1) else None)
         else None)
      else None)"

text \<open>\<open>match[0]\<close>, the matched text, from the two groups.\<close>

definition wholeMatch :: "string \<Rightarrow> string \<Rightarrow> string" where
  "wholeMatch m numStr = ''('' @ m @ '':'' @ numStr @ '')''"

record pixState =
  segmentsP :: "ParsedSegment list"
  parenDepth :: int
  squareDepthP :: int
  bufferP :: string
  randomP :: rng

text \<open>
  \<open>flush\<close> of \<open>parsePixAI\<close>. Every call of the source leaves \<open>overrideWeight\<close>
  undefined, so the weight is always the one of the depths.
\<close>

definition finalWeightPixAI :: "pixState \<Rightarrow> jsnum" where
  "finalWeightPixAI st =
     roundWeight (js_mul (js_mul (Num 1) (Math_pow (11 / 10) (parenDepth st)))
                         (Math_pow (9 / 10) (squareDepthP st)))"

definition flushPixAI :: "pixState \<Rightarrow> pixState" where
  "flushPixAI st =
     (let trimmed = trim (bufferP st) in
      if trimmed \<noteq> [] then
        let finalWeight = finalWeightPixAI st;
            (i, g) = generateId (randomP st)
        in st\<lparr>segmentsP := segmentsP st @
                  [\<lparr>segId = i,
                    segType = (if finalWeight = Num 1 then TextSeg else WeightSeg),
                    raw = trimmed, content = Some (unescapePixAI trimmed),
                    weight = Some finalWeight\<rparr>],
                bufferP := [], randomP := g\<rparr>
      else st\<lparr>bufferP := []\<rparr>)"

text \<open>The body of \<open>if (match)\<close>: the flush, and the segment of the explicit weight.\<close>

definition explicitWeight :: "string \<Rightarrow> string \<Rightarrow> pixState \<Rightarrow> pixState" where
  "explicitWeight m numStr st =
     (let st1 = flushPixAI st;
          (i, g) = generateId (randomP st1)
      in st1\<lparr>segmentsP := segmentsP st1 @
                 [\<lparr>segId = i, segType = WeightSeg, raw = wholeMatch m numStr,
                   content = Some (unescapePixAI (trim m)),
                   weight = Some (parseFloat numStr)\<rparr>],
               randomP := g\<rparr>)"

text \<open>One character that is neither escaped nor the start of an explicit weight.\<close>

definition charPixAI :: "char \<Rightarrow> pixState \<Rightarrow> pixState" where
  "charPixAI c st =
     (if c = CHR ''('' then
        (let st1 = flushPixAI st in st1\<lparr>parenDepth := parenDepth st1 + 1\<rparr>)
      else if c = CHR '')'' then
        (let st1 = flushPixAI st in st1\<lparr>parenDepth := max 0 (parenDepth st1 - 1)\<rparr>)
      else if c = CHR ''['' then
        (let st1 = flushPixAI st in st1\<lparr>squareDepthP := squareDepthP st1 + 1\<rparr>)
      else if c = CHR '']'' then
        (let st1 = flushPixAI st in st1\<lparr>squareDepthP := max 0 (squareDepthP st1 - 1)\<rparr>)
      else if c = CHR '','' then flushPixAI st
      else st\<lparr>bufferP := bufferP st @ [c]\<rparr>)"

lemma contentRun_length: "length (snd (contentRun s)) \<le> length s"
  by (induction s rule: contentRun.induct) auto

lemma matchExplicitWeight_shorter:
  assumes "matchExplicitWeight s = Some (m, numStr, rest)"
  shows "length rest < length s"
proof -
  obtain m' r0 where cr: "contentRun (drop 1 s) = (m', r0)"
    by (cases "contentRun (drop 1 s)")
  obtain fp r1 where fr: "fraction (dropWhile isDigit (drop 1 r0)) = (fp, r1)"
    by (cases "fraction (dropWhile isDigit (drop 1 r0))")
  from assms cr fr have s: "take 1 s = ''(''" and rest: "rest = drop 1 r1"
    by (auto simp: matchExplicitWeight_def Let_def split: if_splits)
  from s have "s \<noteq> []" by auto
  then have "length (drop 1 s) < length s" by simp
  moreover have "length r0 \<le> length (drop 1 s)"
    using contentRun_length [of "drop 1 s"] cr by simp
  moreover have "length r1 \<le> length (dropWhile isDigit (drop 1 r0))"
    using fraction_length [of "dropWhile isDigit (drop 1 r0)"] fr by simp
  moreover have "length (dropWhile isDigit (drop 1 r0)) \<le> length (drop 1 r0)"
    by (rule length_dropWhile_le)
  ultimately show ?thesis using rest by simp
qed

text \<open>
  The loop of \<open>parsePixAI\<close>, on the remaining text. A backslash that is the last character
  is not an escape and falls through to the ordinary characters.
\<close>

function pixLoop :: "string \<Rightarrow> pixState \<Rightarrow> pixState" where
  "pixLoop [] st = st"
| "pixLoop [c] st =
     (case (if c = CHR ''('' then matchExplicitWeight [c] else None) of
        Some (m, numStr, rest) \<Rightarrow> pixLoop rest (explicitWeight m numStr st)
      | None \<Rightarrow> charPixAI c st)"
| "pixLoop (c # d # cs) st =
     (if c = CHR 0x5C then pixLoop cs (st\<lparr>bufferP := bufferP st @ [c, d]\<rparr>)
      else
        (case (if c = CHR ''('' then matchExplicitWeight (c # d # cs) else None) of
           Some (m, numStr, rest) \<Rightarrow> pixLoop rest (explicitWeight m numStr st)
         | None \<Rightarrow> pixLoop (d # cs) (charPixAI c st)))"
  by pat_completeness auto
termination
  by (relation "measure (\<lambda>(s, st). length s)")
     (auto dest: matchExplicitWeight_shorter split: if_splits)

definition initPixAI :: "rng \<Rightarrow> pixState" where
  "initPixAI g =
     \<lparr>segmentsP = [], parenDepth = 0, squareDepthP = 0, bufferP = [], randomP = g\<rparr>"

definition runPixAI :: "rng \<Rightarrow> string \<Rightarrow> pixState" where
  "runPixAI g text = flushPixAI (pixLoop text (initPixAI g))"

text \<open>\<open>parsePixAI(text)\<close>: the segments, and the generator as the call leaves it.\<close>

definition parsePixAI :: "rng \<Rightarrow> string \<Rightarrow> ParsedSegment list \<times> rng" where
  "parsePixAI g text =
     (if text = [] then ([], g)
      else (segmentsP (runPixAI g text), randomP (runPixAI g text)))"

section \<open>The serializers\<close>

text \<open>\<open>seg.weight || 1.0\<close>\<close>

definition weightOrOne :: "jsnum option \<Rightarrow> jsnum" where
  "weightOrOne w = (case w of None \<Rightarrow> Num 1 | Some x \<Rightarrow> if truthy x then x else Num 1)"

text \<open>The filter of \<open>segmentsToPixAI\<close>: \<open>seg.content && seg.content.trim().length > 0\<close>\<close>

definition hasContent :: "ParsedSegment \<Rightarrow> bool" where
  "hasContent seg = (case content seg of None \<Rightarrow> False | Some c \<Rightarrow> c \<noteq> [] \<and> 0 < length (trim c))"

definition renderPixAI :: "ParsedSegment \<Rightarrow> string" where
  "renderPixAI seg =
     (let w = weightOrOne (weight seg);
          c = escapePixAI (the (content seg))
      in if w = Num 1 then c else ''('' @ c @ '':'' @ numToString w @ '')'')"

definition segmentsToPixAI :: "ParsedSegment list \<Rightarrow> string" where
  "segmentsToPixAI segs = join '', '' (map renderPixAI (filter hasContent segs))"

text \<open>A value inside a template literal: \<open>undefined\<close> prints as the word.\<close>

definition showWeight :: "jsnum option \<Rightarrow> string" where
  "showWeight w = (case w of None \<Rightarrow> ''undefined'' | Some x \<Rightarrow> numToString x)"

definition showContent :: "string option \<Rightarrow> string" where
  "showContent c = (case c of None \<Rightarrow> ''undefined'' | Some x \<Rightarrow> x)"

text \<open>\<open>seg.content || seg.raw\<close>\<close>

definition contentOrRaw :: "ParsedSegment \<Rightarrow> string" where
  "contentOrRaw seg = (case content seg of None \<Rightarrow> raw seg | Some c \<Rightarrow> if c \<noteq> [] then c else raw seg)"

definition renderNovelAI :: "ParsedSegment \<Rightarrow> string" where
  "renderNovelAI seg =
     (if segType seg = TextSeg \<or> weight seg = Some (Num 1) then contentOrRaw seg
      else showWeight (weight seg) @ ''::'' @ showContent (content seg) @ ''::'')"

definition segmentsToNovelAI :: "ParsedSegment list \<Rightarrow> string" where
  "segmentsToNovelAI segs = join '', '' (map renderNovelAI segs)"

section \<open>The conversion of \<open>Converter\<close>\<close>

datatype ConversionDirection = NAI_TO_PIX | PIX_TO_NAI

text \<open>What the effect of \<open>Converter\<close> sets: the two result texts and the segments shown.\<close>

record conversion =
  resultText :: string
  resultNegativeText :: string
  shownSegments :: "ParsedSegment list"

definition isPositive :: "ParsedSegment \<Rightarrow> bool" where
  "isPositive s = (case weight s of None \<Rightarrow> True | Some w \<Rightarrow> js_ge0 w)"

definition isNegative :: "ParsedSegment \<Rightarrow> bool" where
  "isNegative s = (case weight s of None \<Rightarrow> False | Some w \<Rightarrow> js_lt0 w)"

text \<open>\<open>{ ...s, weight: Math.abs(s.weight!) }\<close>, applied to segments that have a weight.\<close>

definition flipPositive :: "ParsedSegment \<Rightarrow> ParsedSegment" where
  "flipPositive s = s\<lparr>weight := Some (Math_abs (the (weight s)))\<rparr>"

text \<open>\<open>{ ...s, weight: (s.weight || 1.0) * -1 }\<close>\<close>

definition forceNegative :: "ParsedSegment \<Rightarrow> ParsedSegment" where
  "forceNegative s = s\<lparr>weight := Some (js_mul (weightOrOne (weight s)) (Num (- 1)))\<rparr>"

definition convert ::
  "rng \<Rightarrow> ConversionDirection \<Rightarrow> string \<Rightarrow> string \<Rightarrow> conversion \<times> rng" where
  "convert g direction sourceText sourceNegativeText =
     (case direction of
        NAI_TO_PIX \<Rightarrow>
          (let (parsed, g1) = parseNovelAI g sourceText;
               positiveSegs = filter isPositive parsed;
               negativeSegs = map flipPositive (filter isNegative parsed)
           in (\<lparr>resultText = segmentsToPixAI positiveSegs,
                resultNegativeText = segmentsToPixAI negativeSegs,
                shownSegments = parsed\<rparr>, g1))
      | PIX_TO_NAI \<Rightarrow>
          (let (positiveSegs, g1) = parsePixAI g sourceText;
               (negativeSegsRaw, g2) = parsePixAI g1 sourceNegativeText;
               negativeSegs = map forceNegative negativeSegsRaw;
               allSegments = positiveSegs @ negativeSegs
           in (\<lparr>resultText = segmentsToNovelAI allSegments,
                resultNegativeText = [],
                shownSegments = allSegments\<rparr>, g2)))"

section \<open>Facts about rounding\<close>

subsection \<open>roundEven\<close>

lemma roundEven_of_int: "roundEven (of_int n) = n"
  by (simp add: roundEven_def)

lemma roundEven_close: "\<bar>of_int (roundEven x) - x\<bar> \<le> 1 / 2"
proof -
  define f where "f = \<lfloor>x\<rfloor>"
  have f: "of_int f \<le> x" "x < of_int f + 1" unfolding f_def by linarith+
  consider "x - of_int f < 1 / 2" | "1 / 2 < x - of_int f" | "x - of_int f = 1 / 2"
    by linarith
  then show ?thesis
  proof cases
    case 1
    then have "roundEven x = f" by (simp add: roundEven_def f_def)
    then show ?thesis using f 1 by (simp add: abs_if)
  next
    case 2
    then have "roundEven x = f + 1" by (simp add: roundEven_def f_def)
    then show ?thesis using f 2 by (simp add: abs_if)
  next
    case 3
    then have "roundEven x = f \<or> roundEven x = f + 1" by (simp add: roundEven_def f_def)
    then show ?thesis using f 3 by (auto simp: abs_if)
  qed
qed

lemma roundEven_floor: "\<lfloor>x\<rfloor> \<le> roundEven x" "roundEven x \<le> \<lfloor>x\<rfloor> + 1"
  by (simp_all add: roundEven_def)

lemma roundEven_ge: "of_int n \<le> x \<Longrightarrow> n \<le> roundEven x"
proof -
  assume "of_int n \<le> x"
  then have "n \<le> \<lfloor>x\<rfloor>" by (simp add: le_floor_iff)
  then show ?thesis using roundEven_floor(1) [of x] by linarith
qed

lemma roundEven_le: "x \<le> of_int n \<Longrightarrow> roundEven x \<le> n"
proof (cases "x = of_int n")
  case True
  then show ?thesis by (simp add: roundEven_of_int)
next
  case False
  assume "x \<le> of_int n"
  with False have "x < of_int n" by simp
  then have "\<lfloor>x\<rfloor> < n" by (simp add: floor_less_iff)
  then show ?thesis using roundEven_floor(2) [of x] by linarith
qed

subsection \<open>The binary exponent\<close>

lemma pow2_add1: "power_int (2::rat) (e + 1) = 2 * power_int 2 e"
  by (simp add: power_int_add)

lemma pow2_sub1: "power_int (2::rat) (e - 1) = power_int 2 e / 2"
  by (simp add: power_int_diff)

lemma exponentUp_bounds:
  "1 \<le> r \<Longrightarrow> power_int 2 (exponentUp r) \<le> r \<and> r < power_int 2 (exponentUp r + 1) \<and> 0 \<le> exponentUp r"
proof (induction r rule: exponentUp.induct)
  case (1 r)
  show ?case
  proof (cases "2 \<le> r")
    case True
    then have "1 \<le> r / 2" by simp
    note IH = "1.IH" [OF True this]
    define e where "e = exponentUp (r / 2)"
    have u: "exponentUp r = e + 1" using True unfolding e_def by (subst exponentUp.simps) simp
    have a: "power_int 2 e \<le> r / 2" "r / 2 < power_int 2 (e + 1)" "0 \<le> e"
      using IH by (simp_all add: e_def)
    show ?thesis
      unfolding u using a pow2_add1 [of e] pow2_add1 [of "e + 1"] by (intro conjI) linarith+
  next
    case False
    with "1.prems" show ?thesis by (subst (1 2 3) exponentUp.simps) simp
  qed
qed

lemma exponentDown_bounds:
  "0 < r \<Longrightarrow> r < 1 \<Longrightarrow>
   power_int 2 (exponentDown r) \<le> r \<and> r < power_int 2 (exponentDown r + 1) \<and> exponentDown r < 0"
proof (induction r rule: exponentDown.induct)
  case (1 r)
  show ?case
  proof (cases "2 * r < 1")
    case True
    have c: "0 < r \<and> r < 1" using "1.prems" by simp
    have "0 < 2 * r" using "1.prems" by simp
    note IH = "1.IH" [OF c this True]
    define e where "e = exponentDown (2 * r)"
    have u: "exponentDown r = e - 1" using c unfolding e_def by (subst exponentDown.simps) simp
    have a: "power_int 2 e \<le> 2 * r" "2 * r < power_int 2 (e + 1)" "e < 0"
      using IH by (simp_all add: e_def)
    have s: "e - 1 + 1 = e" by simp
    show ?thesis
      unfolding u s using a pow2_sub1 [of e] pow2_add1 [of e] by (intro conjI) linarith+
  next
    case False
    then have z: "exponentDown (2 * r) = 0" by (subst exponentDown.simps) simp
    have u: "exponentDown r = - 1" using "1.prems" z by (subst exponentDown.simps) simp
    have "power_int (2::rat) (- 1) = 1 / 2" by (simp add: power_int_minus inverse_eq_divide)
    then show ?thesis unfolding u using "1.prems" False by simp
  qed
qed

lemma binaryExponent_bounds:
  assumes "r \<noteq> 0"
  shows "power_int 2 (binaryExponent r) \<le> \<bar>r\<bar>" "\<bar>r\<bar> < power_int 2 (binaryExponent r + 1)"
  using assms exponentUp_bounds [of "\<bar>r\<bar>"] exponentDown_bounds [of "\<bar>r\<bar>"]
  by (auto simp: binaryExponent_def)

lemma pow2_less_iff: "power_int (2::rat) a < power_int 2 b \<longleftrightarrow> a < b"
proof
  assume l: "power_int (2::rat) a < power_int 2 b"
  show "a < b"
  proof (rule ccontr)
    assume "\<not> a < b"
    then have "b \<le> a" by simp
    then have "power_int (2::rat) b \<le> power_int 2 a" by (intro power_int_increasing) simp_all
    with l show False by simp
  qed
next
  assume "a < b"
  then show "power_int (2::rat) a < power_int 2 b" by (intro power_int_strict_increasing) simp_all
qed

lemma pow2_le_iff: "power_int (2::rat) a \<le> power_int 2 b \<longleftrightarrow> a \<le> b"
  using pow2_less_iff [of b a] by (simp add: not_less [symmetric])

lemma pow2_pos [simp]: "0 < power_int (2::rat) a"
  by (simp add: zero_less_power_int)

lemma binaryExponent_unique:
  assumes "power_int 2 e \<le> \<bar>r\<bar>" "\<bar>r\<bar> < power_int 2 (e + 1)"
  shows "binaryExponent r = e"
proof -
  have "0 < \<bar>r\<bar>" using assms(1) pow2_pos [of e] by linarith
  then have nz: "r \<noteq> 0" by simp
  note b = binaryExponent_bounds [OF nz]
  have "power_int (2::rat) e < power_int 2 (binaryExponent r + 1)"
    using assms(1) b(2) by linarith
  moreover have "power_int (2::rat) (binaryExponent r) < power_int 2 (e + 1)"
    using assms(2) b(1) by linarith
  ultimately show ?thesis by (simp add: pow2_less_iff)
qed

lemma binaryExponent_le:
  assumes "\<bar>r\<bar> < power_int 2 m" "r \<noteq> 0"
  shows "binaryExponent r < m"
proof -
  have "power_int (2::rat) (binaryExponent r) < power_int 2 m"
    using binaryExponent_bounds(1) [OF assms(2)] assms(1) by linarith
  then show ?thesis by (simp add: pow2_less_iff)
qed

lemma binaryExponent_ge:
  assumes "power_int 2 m \<le> \<bar>r\<bar>"
  shows "m \<le> binaryExponent r"
proof -
  have "0 < \<bar>r\<bar>" using assms pow2_pos [of m] by linarith
  then have nz: "r \<noteq> 0" by simp
  have "power_int (2::rat) m < power_int 2 (binaryExponent r + 1)"
    using binaryExponent_bounds(2) [OF nz] assms by linarith
  then show ?thesis by (simp add: pow2_less_iff)
qed

lemma quantum_pos [simp]: "0 < quantum r"
  by (simp add: quantum_def)

lemma quantum_nonzero [simp]: "quantum r \<noteq> 0"
  using quantum_pos [of r] by linarith

lemma quantum_nonneg [simp]: "0 \<le> quantum r"
  using quantum_pos [of r] by linarith

lemma quantum_minus [simp]: "quantum (- r) = quantum r"
  by (simp add: quantum_def binaryExponent_def)

lemma roundEven_minus: "roundEven (- x) = - roundEven x"
proof (cases "of_int \<lfloor>x\<rfloor> = x")
  case True
  then obtain n where "x = of_int n" by metis
  then show ?thesis by (simp add: roundEven_of_int flip: of_int_minus)
next
  case False
  define f where "f = \<lfloor>x\<rfloor>"
  have f: "of_int f < x" "x < of_int f + 1" using False unfolding f_def by linarith+
  have "of_int (- f - 1) \<le> - x" "- x < of_int (- f - 1) + 1" using f by simp_all
  then have fl: "\<lfloor>- x\<rfloor> = - f - 1" by (rule floor_unique)
  consider "x - of_int f < 1 / 2" | "1 / 2 < x - of_int f" | "x - of_int f = 1 / 2"
    by linarith
  then show ?thesis
  proof cases
    case 1
    then have "roundEven x = f" by (simp add: roundEven_def f_def)
    moreover have "roundEven (- x) = - f" using 1 by (simp add: roundEven_def fl)
    ultimately show ?thesis by simp
  next
    case 2
    then have "roundEven x = f + 1" by (simp add: roundEven_def f_def)
    moreover have "roundEven (- x) = - f - 1" using 2 by (simp add: roundEven_def fl)
    ultimately show ?thesis by simp
  next
    case 3
    then have a: "roundEven x = (if even f then f else f + 1)" by (simp add: roundEven_def f_def)
    have "- x - of_int (- f - 1) = 1 / 2" using 3 by simp
    then have "roundEven (- x) = (if even (- f - 1) then - f - 1 else - f - 1 + 1)"
      by (simp add: roundEven_def fl)
    then show ?thesis using a by simp
  qed
qed

lemma fromRat_minus: "fromRat (- r) = js_neg (fromRat r)"
proof -
  have "0 < overflowThreshold" by (simp add: overflowThreshold_def)
  then show ?thesis by (auto simp: fromRat_def roundTo_def roundEven_minus)
qed

lemma isDouble_minus [simp]: "isDouble (- q) = isDouble q"
proof -
  have "(of_int \<lfloor>- x\<rfloor> = - x) = (of_int \<lfloor>x\<rfloor> = x)" for x :: rat
    by (metis floor_of_int of_int_minus minus_minus)
  from this [of "q / quantum q"] show ?thesis by (simp add: isDouble_def)
qed

lemma isDouble_fromRat: "isDouble q \<Longrightarrow> fromRat q = Num q"
proof -
  assume d: "isDouble q"
  have i: "of_int \<lfloor>q / quantum q\<rfloor> = q / quantum q"
    using d unfolding isDouble_def by blast
  have "roundEven (q / quantum q) = \<lfloor>q / quantum q\<rfloor>"
    by (metis i roundEven_of_int)
  then have "of_int (roundEven (q / quantum q)) * quantum q = q / quantum q * quantum q"
    by (simp only: i)
  also have "\<dots> = q" by simp
  finally have v: "of_int (roundEven (q / quantum q)) * quantum q = q" .
  have "\<bar>q\<bar> < overflowThreshold" using d unfolding isDouble_def by blast
  then have "\<not> overflowThreshold \<le> q" "\<not> q \<le> - overflowThreshold"
    by (auto simp: abs_if split: if_splits)
  then show ?thesis by (simp add: fromRat_def roundTo_def v)
qed

lemma isDouble_0 [simp]: "isDouble 0"
  by (simp add: isDouble_def overflowThreshold_def)


subsection \<open>Powers of two\<close>

lemma pow2_nat: "0 \<le> k \<Longrightarrow> power_int (2::rat) k = of_int (2 ^ nat k)"
  by (simp add: power_int_def)

lemma pow2_div: "power_int (2::rat) a / power_int 2 b = power_int 2 (a - b)"
  by (simp add: power_int_diff)

lemma threshold_facts:
  "power_int 2 1023 < overflowThreshold"
  "overflowThreshold < power_int 2 1024"
  "(2 ^ 53 - 1) * power_int 2 971 < overflowThreshold"
  "overflowThreshold / power_int 2 971 = 2 ^ 53 - 1 / 2"
  "0 < overflowThreshold"
  by (simp_all add: overflowThreshold_def)

lemma roundEven_0 [simp]: "roundEven 0 = 0"
  using roundEven_of_int [of 0] by simp

lemma roundTo_nonneg: "0 \<le> r \<Longrightarrow> 0 \<le> roundTo r"
proof -
  assume "0 \<le> r"
  then have "of_int 0 \<le> r / quantum r" by simp
  then have "0 \<le> roundEven (r / quantum r)" by (rule roundEven_ge)
  then show ?thesis by (simp add: roundTo_def)
qed

lemma roundTo_le_pow2:
  assumes "0 \<le> r" "r \<le> power_int 2 m" "- 1022 \<le> m"
  shows "roundTo r \<le> power_int 2 m"
proof (cases "r = 0")
  case True
  then show ?thesis by (simp add: roundTo_def)
next
  case False
  define e' where "e' = max (binaryExponent r) (- 1022)"
  have "0 < power_int (2::rat) m" by simp
  then have "\<bar>r\<bar> < power_int 2 (m + 1)"
    using assms(1,2) unfolding pow2_add1 by linarith
  then have "binaryExponent r < m + 1" using False by (rule binaryExponent_le)
  then have le: "e' \<le> m" using assms(3) by (simp add: e'_def)
  define N :: int where "N = 2 ^ nat (m - e' + 52)"
  have Q: "quantum r = power_int 2 (e' - 52)" by (simp add: quantum_def e'_def)
  have "power_int 2 m / quantum r = power_int (2::rat) (m - (e' - 52))"
    unfolding Q by (rule pow2_div)
  also have "\<dots> = of_int N" using le by (simp add: N_def pow2_nat)
  finally have n: "power_int 2 m / quantum r = of_int N" .
  have "r / quantum r \<le> power_int 2 m / quantum r"
    using assms(2) by (simp add: divide_right_mono)
  then have "roundEven (r / quantum r) \<le> N" unfolding n by (rule roundEven_le)
  then have "of_int (roundEven (r / quantum r)) * quantum r \<le> of_int N * quantum r"
    by (simp add: mult_right_mono)
  also have "of_int N * quantum r = power_int 2 m"
    using n by (simp add: field_simps)
  finally show ?thesis by (simp add: roundTo_def)
qed

lemma roundTo_ge_pow2:
  assumes "power_int 2 m \<le> r" "- 1074 \<le> m"
  shows "power_int 2 m \<le> roundTo r"
proof -
  have "0 < power_int (2::rat) m" by simp
  then have r0: "0 < r" using assms(1) by linarith
  define e' where "e' = max (binaryExponent r) (- 1022)"
  define k where "k = max m (e' - 52)"
  have "power_int 2 m \<le> \<bar>r\<bar>" using assms(1) r0 by simp
  then have me: "m \<le> binaryExponent r" by (rule binaryExponent_ge)
  have "power_int 2 (binaryExponent r) \<le> \<bar>r\<bar>"
    using r0 by (intro binaryExponent_bounds) simp
  moreover have "e' - 52 \<le> binaryExponent r \<or> e' - 52 \<le> m"
    using assms(2) by (auto simp: e'_def max_def)
  ultimately have kr: "power_int 2 k \<le> r"
    using assms(1) r0 by (auto simp: k_def max_def intro: order_trans [OF power_int_increasing])
  define N :: int where "N = 2 ^ nat (k - (e' - 52))"
  have Q: "quantum r = power_int 2 (e' - 52)" by (simp add: quantum_def e'_def)
  have "power_int 2 k / quantum r = power_int (2::rat) (k - (e' - 52))"
    unfolding Q by (rule pow2_div)
  also have "\<dots> = of_int N" by (simp add: N_def pow2_nat k_def)
  finally have n: "power_int 2 k / quantum r = of_int N" .
  have "power_int 2 k / quantum r \<le> r / quantum r"
    using kr by (simp add: divide_right_mono)
  then have "N \<le> roundEven (r / quantum r)" unfolding n by (rule roundEven_ge)
  then have "of_int N * quantum r \<le> of_int (roundEven (r / quantum r)) * quantum r"
    by (simp add: mult_right_mono)
  moreover have "of_int N * quantum r = power_int 2 k"
    using n by (simp add: field_simps)
  moreover have "power_int (2::rat) m \<le> power_int 2 k"
    by (intro power_int_increasing) (simp_all add: k_def)
  ultimately show ?thesis unfolding roundTo_def by linarith
qed


subsection \<open>The result of rounding is a double\<close>

lemma roundTo_below_threshold:
  assumes "0 < r" "r < overflowThreshold"
  shows "roundTo r < overflowThreshold"
proof (cases "r \<le> power_int 2 1023")
  case True
  then have "roundTo r \<le> power_int 2 1023"
    using assms(1) by (intro roundTo_le_pow2) simp_all
  then show ?thesis using threshold_facts(1) by linarith
next
  case False
  then have "power_int 2 1023 \<le> \<bar>r\<bar>" "\<bar>r\<bar> < power_int 2 (1023 + 1)"
    using assms threshold_facts(2) by simp_all
  then have e: "binaryExponent r = 1023" by (rule binaryExponent_unique)
  have Q: "quantum r = power_int 2 971" by (simp add: quantum_def e)
  have "r / quantum r < overflowThreshold / quantum r"
    using assms(2) by (simp add: divide_strict_right_mono)
  then have x: "r / quantum r < 2 ^ 53 - 1 / 2"
    unfolding Q threshold_facts(4) .
  have "of_int (roundEven (r / quantum r)) \<le> r / quantum r + 1 / 2"
    using roundEven_close [of "r / quantum r"] by (simp add: abs_if split: if_splits)
  then have "(of_int (roundEven (r / quantum r)) :: rat) < 2 ^ 53"
    using x by linarith
  moreover have "(2::rat) ^ 53 = of_int (2 ^ 53)" by simp
  ultimately have "(of_int (roundEven (r / quantum r)) :: rat) < of_int (2 ^ 53)"
    by (simp only:)
  then have "roundEven (r / quantum r) < 2 ^ 53" by (simp only: of_int_less_iff)
  then have "roundEven (r / quantum r) \<le> 2 ^ 53 - 1" by simp
  then have "(of_int (roundEven (r / quantum r)) :: rat) \<le> of_int (2 ^ 53 - 1)"
    by (simp only: of_int_le_iff)
  then have "roundTo r \<le> of_int (2 ^ 53 - 1) * power_int 2 971"
    unfolding roundTo_def Q by (intro mult_right_mono) simp_all
  then show ?thesis using threshold_facts(3) by simp
qed

lemma roundTo_scaled: "roundTo r / quantum r = of_int (roundEven (r / quantum r))"
  by (simp add: roundTo_def)

lemma roundTo_grid:
  assumes "0 < r" "r < overflowThreshold"
  shows "roundTo r = 0 \<or>
         quantum (roundTo r) = quantum r \<or>
         (\<exists>k\<ge>0. roundTo r / quantum (roundTo r) = of_int (2 ^ nat k))"
proof (cases "roundTo r = 0")
  case True
  then show ?thesis by simp
next
  case False
  define q where "q = roundTo r"
  define e where "e = binaryExponent r"
  have r0: "r \<noteq> 0" "\<bar>r\<bar> = r" using assms(1) by simp_all
  note b = binaryExponent_bounds [OF r0(1), unfolded r0(2), folded e_def]
  have q0: "0 \<le> q" unfolding q_def using assms(1) by (intro roundTo_nonneg) simp
  with False have qp: "0 < q" by (simp add: q_def)
  then have qa: "q \<noteq> 0" "\<bar>q\<bar> = q" by simp_all
  show ?thesis
  proof (cases "- 1022 \<le> e")
    case True
    have lo: "power_int 2 e \<le> q"
      unfolding q_def using b(1) True by (intro roundTo_ge_pow2) simp_all
    have hi: "q \<le> power_int 2 (e + 1)"
      unfolding q_def using b(2) True assms(1) by (intro roundTo_le_pow2) simp_all
    show ?thesis
    proof (cases "q < power_int 2 (e + 1)")
      case True
      have "binaryExponent q = e"
        using lo True by (intro binaryExponent_unique) (simp_all add: qa)
      then have "quantum q = quantum r" by (simp add: quantum_def e_def)
      then show ?thesis by (simp add: q_def)
    next
      case False
      with hi have q: "q = power_int 2 (e + 1)" by simp
      have "power_int (2::rat) (e + 1) < power_int 2 (e + 1 + 1)"
        by (simp add: pow2_less_iff)
      then have "binaryExponent q = e + 1"
        unfolding q by (intro binaryExponent_unique) simp_all
      then have "quantum q = power_int 2 (e + 1 - 52)"
        using \<open>- 1022 \<le> e\<close> by (simp add: quantum_def max_def)
      then have "q / quantum q = power_int 2 (e + 1 - (e + 1 - 52))"
        unfolding q by (simp only: pow2_div)
      then have "q / quantum q = of_int (2 ^ nat 52)" by simp
      then show ?thesis unfolding q_def by (intro disjI2 exI [of _ 52]) simp
    qed
  next
    case False
    then have "e + 1 \<le> - 1022" by simp
    then have "power_int (2::rat) (e + 1) \<le> power_int 2 (- 1022)"
      by (simp only: pow2_le_iff)
    then have "r \<le> power_int 2 (- 1022)" using b(2) by linarith
    then have "q \<le> power_int 2 (- 1022)"
      unfolding q_def using assms(1) by (intro roundTo_le_pow2) simp_all
    moreover have "power_int (2::rat) (- 1022) < power_int 2 (- 1021)"
      by (simp only: pow2_less_iff)
    ultimately have "\<bar>q\<bar> < power_int 2 (- 1021)" using qa by simp
    then have "binaryExponent q < - 1021" using qa(1) by (rule binaryExponent_le)
    then have "quantum q = quantum r"
      using False by (simp add: quantum_def e_def max_def)
    then show ?thesis by (simp add: q_def)
  qed
qed

lemma roundTo_isDouble_pos:
  assumes "0 < r" "r < overflowThreshold"
  shows "isDouble (roundTo r)"
proof -
  have "0 \<le> roundTo r" using assms(1) by (intro roundTo_nonneg) simp
  then have t: "\<bar>roundTo r\<bar> < overflowThreshold"
    using roundTo_below_threshold [OF assms] by simp
  from roundTo_grid [OF assms] consider "roundTo r = 0"
    | "quantum (roundTo r) = quantum r"
    | k where "roundTo r / quantum (roundTo r) = of_int (2 ^ nat k)"
    by blast
  then show ?thesis
  proof cases
    case 1
    then show ?thesis by simp
  next
    case 2
    then have "roundTo r / quantum (roundTo r) = of_int (roundEven (r / quantum r))"
      by (simp add: roundTo_scaled)
    then show ?thesis using t unfolding isDouble_def by (simp only: floor_of_int; simp)
  next
    case 3
    then show ?thesis using t unfolding isDouble_def by (simp only: floor_of_int; simp)
  qed
qed

lemma roundTo_minus: "roundTo (- r) = - roundTo r"
  by (simp add: roundTo_def roundEven_minus)

lemma roundTo_0 [simp]: "roundTo 0 = 0"
  by (simp add: roundTo_def)

lemma roundTo_isDouble:
  assumes "\<bar>r\<bar> < overflowThreshold"
  shows "isDouble (roundTo r)"
proof -
  consider "0 < r" | "r = 0" | "0 < - r" by linarith
  then show ?thesis
  proof cases
    case 1
    then show ?thesis using assms by (intro roundTo_isDouble_pos) simp_all
  next
    case 2
    then show ?thesis by simp
  next
    case 3
    then have "isDouble (roundTo (- r))" using assms by (intro roundTo_isDouble_pos) simp_all
    then show ?thesis by (simp add: roundTo_minus)
  qed
qed

lemma fromRat_roundTo: "\<bar>r\<bar> < overflowThreshold \<Longrightarrow> fromRat r = Num (roundTo r)"
  by (auto simp: fromRat_def abs_if split: if_splits)

lemma fromRat_isDouble: "fromRat r = Num q \<Longrightarrow> isDouble q"
proof -
  assume a: "fromRat r = Num q"
  then have "\<bar>r\<bar> < overflowThreshold"
    by (auto simp: fromRat_def abs_if split: if_splits)
  then show ?thesis using a roundTo_isDouble [of r] by (simp add: fromRat_roundTo)
qed

lemma fromRat_idem: "fromRat r = Num q \<Longrightarrow> fromRat q = Num q"
  by (intro isDouble_fromRat fromRat_isDouble)

lemma roundTo_close: "\<bar>roundTo r - r\<bar> \<le> quantum r / 2"
proof -
  have "\<bar>of_int (roundEven (r / quantum r)) - r / quantum r\<bar> * quantum r \<le> 1 / 2 * quantum r"
    using roundEven_close [of "r / quantum r"] by (intro mult_right_mono) simp_all
  moreover have "\<bar>of_int (roundEven (r / quantum r)) - r / quantum r\<bar> * quantum r =
      \<bar>(of_int (roundEven (r / quantum r)) - r / quantum r) * quantum r\<bar>"
    by (simp add: abs_mult)
  moreover have "(of_int (roundEven (r / quantum r)) - r / quantum r) * quantum r = roundTo r - r"
    by (simp add: roundTo_def algebra_simps)
  ultimately show ?thesis by simp
qed

lemma quantum_le:
  assumes "power_int 2 (- 1022) \<le> \<bar>r\<bar>"
  shows "quantum r \<le> \<bar>r\<bar> / 2 ^ 52"
proof -
  have e: "- 1022 \<le> binaryExponent r" using assms by (rule binaryExponent_ge)
  have "0 < power_int (2::rat) (- 1022)" by (rule pow2_pos)
  then have "r \<noteq> 0" using assms by linarith
  then have "power_int 2 (binaryExponent r) \<le> \<bar>r\<bar>" by (rule binaryExponent_bounds)
  moreover have "quantum r = power_int 2 (binaryExponent r - 52)"
    using e by (simp add: quantum_def max_def)
  then have "quantum r = power_int 2 (binaryExponent r) / power_int 2 52"
    by (simp only: pow2_div)
  moreover have "power_int (2::rat) 52 = 2 ^ 52" by simp
  ultimately show ?thesis by (simp only: divide_right_mono zero_le_power zero_le_numeral)
qed

lemma quantum_subnormal:
  assumes "\<bar>r\<bar> < power_int 2 (- 1022)" "r \<noteq> 0"
  shows "quantum r = power_int 2 (- 1074)"
proof -
  from assms have "binaryExponent r < - 1022" by (rule binaryExponent_le)
  then show ?thesis by (simp add: quantum_def max_def)
qed

section \<open>Evaluation lemmas\<close>

text \<open>
  Rewrite rules that let the simplifier run the definitions on concrete inputs without
  unfolding the two range thresholds each time.
\<close>

lemma fromRat_normal:
  assumes "1 / 2 ^ 64 \<le> \<bar>r\<bar>" "\<bar>r\<bar> \<le> 2 ^ 64"
  shows "fromRat r =
     Num (of_int (roundEven (r / power_int 2 (binaryExponent r - 52))) *
          power_int 2 (binaryExponent r - 52))"
proof -
  have "(2::rat) ^ 64 < overflowThreshold" by (simp add: overflowThreshold_def)
  then have t: "\<bar>r\<bar> < overflowThreshold" using assms(2) by linarith
  have "power_int (2::rat) (- 64) = 1 / 2 ^ 64" by (simp add: power_int_minus inverse_eq_divide)
  then have "power_int 2 (- 64) \<le> \<bar>r\<bar>" using assms(1) by simp
  then have "- 64 \<le> binaryExponent r" by (rule binaryExponent_ge)
  then have "quantum r = power_int 2 (binaryExponent r - 52)" by (simp add: quantum_def max_def)
  then show ?thesis using t by (simp add: fromRat_roundTo roundTo_def)
qed

lemma fromRat_0: "fromRat 0 = Num 0"
  by (simp add: fromRat_roundTo threshold_facts)

lemma floor_rat_numeral: "\<lfloor>numeral a / numeral b :: rat\<rfloor> = numeral a div numeral b"
  using floor_divide_of_int_eq [of "numeral a" "numeral b", where ?'a = rat] by simp

lemma floor_rat_neg_numeral:
  "\<lfloor>- (numeral a / numeral b) :: rat\<rfloor> = - numeral a div numeral b"
  using floor_divide_of_int_eq [of "- numeral a" "numeral b", where ?'a = rat] by simp

lemma floor_rat_one: "\<lfloor>1 / numeral b :: rat\<rfloor> = 1 div numeral b"
  using floor_divide_of_int_eq [of 1 "numeral b", where ?'a = rat] by simp

lemma fracDigits_numeral:
  "fracDigits (numeral k) x =
     (if x = 0 then []
      else digitChar (nat \<lfloor>10 * x\<rfloor>) #
           fracDigits (pred_numeral k) (10 * x - of_int \<lfloor>10 * x\<rfloor>))"
  by (simp add: numeral_eq_Suc)

declare natDigits.simps [simp del]

lemma natDigits_0: "natDigits 0 = []"
  by (simp add: natDigits.simps)

lemma natDigits_pos: "0 < n \<Longrightarrow> natDigits n = natDigits (n div 10) @ [digitChar (n mod 10)]"
  by (subst natDigits.simps) simp

lemma shortestFrom_numeral:
  "shortestFrom (numeral n) k r =
     (case digitsCandidate r k of Some v \<Rightarrow> v | None \<Rightarrow> shortestFrom (pred_numeral n) (Suc k) r)"
  by (simp add: numeral_eq_Suc)

lemmas num_ev = fromRat_normal fromRat_0 binaryExponent_def exponentUp.simps exponentDown.simps
  roundEven_def floor_rat_numeral floor_rat_neg_numeral floor_rat_one
  power_divide power_int_minus roundWeight_def Math_pow_def

lemmas str_ev = trim_def isSpace_def isDigit_def isLineTerminator_def fraction_def Let_def
  generateId_def numeral_2_eq_2

lemmas nai_ev = parseNovelAI_def runNovelAI_def initNovelAI_def flushNovelAI_def
  finalWeightNovelAI_def charNovelAI_def weightControl_def matchWeightControl_def

lemmas pix_ev = parsePixAI_def runPixAI_def initPixAI_def flushPixAI_def finalWeightPixAI_def
  charPixAI_def explicitWeight_def matchExplicitWeight_def wholeMatch_def

lemmas parse_ev = parseFloat_def parseUnsigned_def digitsVal_def digitVal_def exponentPart_def

lemmas show_ev = posToString_def shortestDecimal_def shortestFrom_numeral digitsCandidate_def
  decimalExponent_def plainDecimal_def fracPart_def fracDigits_numeral digitChar_def
  natDigits_0 natDigits_pos
  showWeight_def showContent_def

lemmas ser_ev = segmentsToPixAI_def renderPixAI_def hasContent_def weightOrOne_def
  segmentsToNovelAI_def renderNovelAI_def contentOrRaw_def

lemmas conv_ev = convert_def isPositive_def isNegative_def flipPositive_def forceNegative_def

section \<open>Facts about single steps\<close>

lemma flushNovelAI_segments:
  "segments (flushNovelAI st) =
     (if trim (buffer st) = [] then segments st
      else segments st @
           [\<lparr>segId = random st 0,
             segType = (if finalWeightNovelAI st = Num 1 then TextSeg else WeightSeg),
             raw = trim (buffer st), content = Some (trim (buffer st)),
             weight = Some (finalWeightNovelAI st)\<rparr>])"
  by (simp add: flushNovelAI_def generateId_def Let_def)

lemma flushNovelAI_fields [simp]:
  "curlyDepth (flushNovelAI st) = curlyDepth st"
  "squareDepth (flushNovelAI st) = squareDepth st"
  "activeBaseWeight (flushNovelAI st) = activeBaseWeight st"
  "buffer (flushNovelAI st) = []"
  by (simp_all add: flushNovelAI_def generateId_def Let_def)

lemma weightControl_fields [simp]:
  "curlyDepth (weightControl numStr st) = 0"
  "squareDepth (weightControl numStr st) = 0"
  "buffer (weightControl numStr st) = buffer st"
  "segments (weightControl numStr st) = segments st"
  "random (weightControl numStr st) = random st"
  by (simp_all add: weightControl_def Let_def)

lemma matchWeightControl_close [simp]:
  "matchWeightControl (CHR ''}'' # cs) = None"
  "matchWeightControl (CHR '']'' # cs) = None"
  by (simp_all add: matchWeightControl_def fraction_def isDigit_def)

lemma flushPixAI_segments:
  "segmentsP (flushPixAI st) =
     (if trim (bufferP st) = [] then segmentsP st
      else segmentsP st @
           [\<lparr>segId = randomP st 0,
             segType = (if finalWeightPixAI st = Num 1 then TextSeg else WeightSeg),
             raw = trim (bufferP st), content = Some (unescapePixAI (trim (bufferP st))),
             weight = Some (finalWeightPixAI st)\<rparr>])"
  by (simp add: flushPixAI_def generateId_def Let_def)

lemma flushPixAI_fields [simp]:
  "parenDepth (flushPixAI st) = parenDepth st"
  "squareDepthP (flushPixAI st) = squareDepthP st"
  "bufferP (flushPixAI st) = []"
  by (simp_all add: flushPixAI_def generateId_def Let_def)

lemma explicitWeight_segments:
  "segmentsP (explicitWeight m numStr st) =
     segmentsP (flushPixAI st) @
     [\<lparr>segId = randomP (flushPixAI st) 0, segType = WeightSeg, raw = wholeMatch m numStr,
       content = Some (unescapePixAI (trim m)), weight = Some (parseFloat numStr)\<rparr>]"
  by (simp add: explicitWeight_def generateId_def Let_def)

lemma explicitWeight_fields [simp]:
  "parenDepth (explicitWeight m numStr st) = parenDepth st"
  "squareDepthP (explicitWeight m numStr st) = squareDepthP st"
  "bufferP (explicitWeight m numStr st) = []"
  by (simp_all add: explicitWeight_def generateId_def Let_def)

lemma pixLoop_match:
  assumes "matchExplicitWeight (CHR ''('' # cs) = Some (m, numStr, rest)"
  shows "pixLoop (CHR ''('' # cs) st = pixLoop rest (explicitWeight m numStr st)"
  using assms by (cases cs) simp_all

section \<open>The range of the doubles and the rounding of a weight\<close>

lemma threshold_room:
  "(2::rat) ^ 1023 < overflowThreshold"
  "(10::rat) ^ 302 < overflowThreshold"
  by (simp_all add: overflowThreshold_def)

lemma fromRat_bounded:
  assumes "0 \<le> r" "r \<le> 2 ^ n" "n \<le> 1023"
  shows "\<exists>q. fromRat r = Num q \<and> 0 \<le> q \<and> q \<le> 2 ^ n"
proof -
  have "(2::rat) ^ n \<le> 2 ^ 1023" using assms(3) by (intro power_increasing) simp_all
  then have "\<bar>r\<bar> < overflowThreshold" using assms(1,2) threshold_room(1) by linarith
  then have "fromRat r = Num (roundTo r)" by (rule fromRat_roundTo)
  moreover have "0 \<le> roundTo r" using assms(1) by (rule roundTo_nonneg)
  moreover have "roundTo r \<le> power_int 2 (int n)"
    using assms(1,2) by (intro roundTo_le_pow2) simp_all
  ultimately show ?thesis by simp
qed

lemma Math_round_close:
  "Math_round (Num p) = Num (of_int \<lfloor>p + 1 / 2\<rfloor>)"
  "\<bar>of_int \<lfloor>p + 1 / 2\<rfloor> - p\<bar> \<le> 1 / 2"
proof -
  show "Math_round (Num p) = Num (of_int \<lfloor>p + 1 / 2\<rfloor>)" by simp
  have "of_int \<lfloor>p + 1 / 2\<rfloor> \<le> p + 1 / 2" "p + 1 / 2 < of_int \<lfloor>p + 1 / 2\<rfloor> + 1"
    by linarith+
  then show "\<bar>of_int \<lfloor>p + 1 / 2\<rfloor> - p\<bar> \<le> 1 / 2" by linarith
qed

lemma roundWeight_two_decimals:
  assumes "0 \<le> r" "r \<le> 10 ^ 300"
  shows "\<exists>k::int. roundWeight (Num r) = fromRat (of_int k / 100) \<and>
           \<bar>of_int k / 100 - r\<bar> \<le> 1 / 200 + r / 2 ^ 53"
proof -
  define p where "p = roundTo (r * 100)"
  define k where "k = \<lfloor>p + 1 / 2\<rfloor>"
  have "r * 100 \<le> 10 ^ 300 * 100" using assms(2) by simp
  then have "r * 100 \<le> 10 ^ 302" by simp
  then have "\<bar>r * 100\<bar> < overflowThreshold" using assms(1) threshold_room(2) by simp
  then have m: "js_mul (Num r) (Num 100) = Num p"
    by (simp add: fromRat_roundTo p_def)
  then have w: "roundWeight (Num r) = fromRat (of_int k / 100)"
    by (simp add: roundWeight_def k_def)
  have kp: "\<bar>of_int k - p\<bar> \<le> 1 / 2" unfolding k_def by (rule Math_round_close)
  have p0: "0 \<le> p" unfolding p_def using assms(1) by (intro roundTo_nonneg) simp
  have "\<bar>of_int k - r * 100\<bar> \<le> 1 / 2 + r * 100 / 2 ^ 53"
  proof (cases "power_int 2 (- 1022) \<le> r * 100")
    case True
    then have "quantum (r * 100) \<le> \<bar>r * 100\<bar> / 2 ^ 52"
      using assms(1) by (intro quantum_le) simp
    then have "quantum (r * 100) / 2 \<le> r * 100 / 2 ^ 53"
      using assms(1) by simp
    then have "\<bar>p - r * 100\<bar> \<le> r * 100 / 2 ^ 53"
      using roundTo_close [of "r * 100"] unfolding p_def by linarith
    then show ?thesis using kp by linarith
  next
    case False
    then have "r * 100 \<le> power_int 2 (- 1022)" by simp
    then have "p \<le> power_int 2 (- 1022)"
      unfolding p_def using assms(1) by (intro roundTo_le_pow2) simp_all
    moreover have "power_int (2::rat) (- 1022) < power_int 2 (- 1)"
      by (simp only: pow2_less_iff)
    moreover have "power_int (2::rat) (- 1) = 1 / 2"
      by (simp add: power_int_minus inverse_eq_divide)
    ultimately have ph: "p < 1 / 2" and rh: "r * 100 < 1 / 2"
      using \<open>r * 100 \<le> power_int 2 (- 1022)\<close> by linarith+
    have "k = 0" unfolding k_def using p0 ph by (intro floor_unique) simp_all
    then show ?thesis using rh assms(1) by (simp add: abs_if)
  qed
  then have "\<bar>of_int k / 100 - r\<bar> \<le> 1 / 200 + r / 2 ^ 53"
    by (simp add: abs_if field_simps split: if_splits)
  with w show ?thesis by blast
qed

section \<open>Digit strings and what the two expressions capture\<close>

lemma isDigit_cases:
  "isDigit c \<longleftrightarrow> c = CHR ''0'' \<or> c = CHR ''1'' \<or> c = CHR ''2'' \<or> c = CHR ''3'' \<or> c = CHR ''4'' \<or>
     c = CHR ''5'' \<or> c = CHR ''6'' \<or> c = CHR ''7'' \<or> c = CHR ''8'' \<or> c = CHR ''9''"
  by (auto simp: isDigit_def)

lemma digit_not_special:
  assumes "isDigit c"
  shows "\<not> isSpace c" "c \<noteq> CHR ''.''" "c \<noteq> CHR '':''" "c \<noteq> CHR ''-''" "c \<noteq> CHR ''+''"
    "c \<noteq> CHR ''I''" "c \<noteq> CHR '')''" "c \<noteq> CHR ''(''"
  using assms by (auto simp: isDigit_cases isSpace_def)

lemma digitVal_le: "isDigit c \<Longrightarrow> digitVal c \<le> 9"
  by (auto simp: isDigit_cases digitVal_def)

lemma digitsVal_snoc: "digitsVal (ds @ [c]) = 10 * digitsVal ds + digitVal c"
  by (simp add: digitsVal_def)

lemma digitsVal_Nil: "digitsVal [] = 0"
  by (simp add: digitsVal_def)

lemma digitsVal_less: "list_all isDigit ds \<Longrightarrow> digitsVal ds < 10 ^ length ds"
proof (induction ds rule: rev_induct)
  case Nil
  then show ?case by (simp add: digitsVal_Nil)
next
  case (snoc c ds)
  then have "digitsVal ds < 10 ^ length ds" and "digitVal c \<le> 9"
    by (simp_all add: digitVal_le)
  then have "10 * digitsVal ds + digitVal c < 10 * 10 ^ length ds"
    by linarith
  then show ?case by (simp add: digitsVal_snoc)
qed

text \<open>The value of a decimal literal with integer digits \<open>ip\<close> and fraction digits \<open>fd\<close>.\<close>

definition decimalValue :: "string \<Rightarrow> string \<Rightarrow> rat" where
  "decimalValue ip fd = of_nat (digitsVal (ip @ fd)) / 10 ^ length fd"

lemma decimalValue_bounds:
  assumes "list_all isDigit ip" "list_all isDigit fd"
  shows "0 \<le> decimalValue ip fd" "decimalValue ip fd < 10 ^ length ip"
proof -
  show "0 \<le> decimalValue ip fd" by (simp add: decimalValue_def)
  have "digitsVal (ip @ fd) < 10 ^ length (ip @ fd)"
    using assms by (intro digitsVal_less) simp
  then have "(of_nat (digitsVal (ip @ fd)) :: rat) < of_nat (10 ^ length (ip @ fd))"
    by (simp only: of_nat_less_iff)
  then have "(of_nat (digitsVal (ip @ fd)) :: rat) < 10 ^ length ip * 10 ^ length fd"
    by (simp add: power_add)
  then show "decimalValue ip fd < 10 ^ length ip"
    by (simp add: decimalValue_def divide_less_eq)
qed

text \<open>The shape of what \<open>\d*(?:\.\d+)?\<close> captures.\<close>

definition numeral_shape :: "string \<Rightarrow> string \<Rightarrow> string" where
  "numeral_shape ip fd = ip @ (if fd = [] then [] else CHR ''.'' # fd)"

lemma takeWhile_digits: "list_all isDigit (takeWhile isDigit s)"
  by (induction s) auto

lemma dropWhile_digits_head: "dropWhile isDigit s = c # t \<Longrightarrow> \<not> isDigit c"
  by (metis hd_dropWhile list.sel(1) list.distinct(1))

lemma fraction_shape:
  assumes "fraction s = (fp, r)"
  shows "\<exists>fd. list_all isDigit fd \<and> fp = (if fd = [] then [] else CHR ''.'' # fd) \<and> s = fp @ r"
proof (cases "\<exists>t. s = CHR ''.'' # t \<and> takeWhile isDigit t \<noteq> []")
  case True
  then obtain t where s: "s = CHR ''.'' # t" and t: "takeWhile isDigit t \<noteq> []" by blast
  with assms have "fp = CHR ''.'' # takeWhile isDigit t" "r = dropWhile isDigit t"
    by (simp_all add: fraction_def)
  with s t show ?thesis
    by (intro exI [of _ "takeWhile isDigit t"]) (simp add: takeWhile_digits)
next
  case False
  with assms have "fp = []" "r = s"
    by (auto simp: fraction_def split: list.splits if_splits)
  then show ?thesis by (intro exI [of _ "[]"]) simp
qed

lemma matchWeightControl_shape:
  assumes "matchWeightControl s = Some (numStr, rest)"
  shows "\<exists>ip fd. list_all isDigit ip \<and> list_all isDigit fd \<and>
           numStr = numeral_shape ip fd \<and> s = numStr @ ''::'' @ rest"
proof -
  obtain fp r where fr: "fraction (dropWhile isDigit s) = (fp, r)"
    by (cases "fraction (dropWhile isDigit s)")
  from assms fr have r: "take 2 r = ''::''" and rest: "rest = drop 2 r"
    and n: "numStr = takeWhile isDigit s @ fp"
    by (auto simp: matchWeightControl_def split: if_splits)
  from fraction_shape [OF fr] obtain fd where fd: "list_all isDigit fd"
    "fp = (if fd = [] then [] else CHR ''.'' # fd)" "dropWhile isDigit s = fp @ r"
    by blast
  have "r = ''::'' @ rest" using r rest by (metis append_take_drop_id)
  then have "s = numStr @ ''::'' @ rest"
    using fd(3) n by (metis append.assoc takeWhile_dropWhile_id)
  then show ?thesis
    using fd n by (intro exI [of _ "takeWhile isDigit s"] exI [of _ fd])
      (simp add: numeral_shape_def takeWhile_digits)
qed

lemma takeWhile_digits_all: "list_all isDigit ds \<Longrightarrow> takeWhile isDigit (ds @ []) = ds"
  by (simp add: list_all_iff)

lemma numeral_shape_head:
  assumes "list_all isDigit ip" and "numeral_shape ip fd \<noteq> []"
  shows "\<exists>c t. numeral_shape ip fd = c # t \<and> (isDigit c \<or> c = CHR ''.'')"
proof (cases ip)
  case Nil
  with assms(2) show ?thesis by (auto simp: numeral_shape_def split: if_splits)
next
  case (Cons i ip')
  with assms(1) show ?thesis by (simp add: numeral_shape_def)
qed

lemma parseFloat_shape:
  assumes ip: "list_all isDigit ip" and fd: "list_all isDigit fd"
    and ne: "numeral_shape ip fd \<noteq> []"
  shows "parseFloat (numeral_shape ip fd) = fromRat (decimalValue ip fd)"
proof -
  let ?s = "numeral_shape ip fd"
  obtain c t where s: "?s = c # t" and c: "isDigit c \<or> c = CHR ''.''"
    using numeral_shape_head [OF ip ne] by blast
  from c have nsp: "\<not> isSpace c" and c1: "c \<noteq> CHR ''-''" "c \<noteq> CHR ''+''" "c \<noteq> CHR ''I''"
    by (auto simp: isDigit_cases isSpace_def)
  have s0: "dropWhile isSpace ?s = ?s" using nsp by (simp add: s)
  have t8: "take 8 ?s \<noteq> ''Infinity''" using c1 by (simp add: s)
  have t1: "take 1 ?s \<noteq> ''-''" "take 1 ?s \<noteq> ''+''" using c1 by (simp_all add: s)
  have nd: "\<not> isDigit (CHR ''.'')" by (simp add: isDigit_def)
  have tw: "takeWhile isDigit ?s = ip"
    unfolding numeral_shape_def using ip nd
    by (cases "fd = []") (simp_all add: list_all_iff takeWhile_append2)
  have dw: "dropWhile isDigit ?s = (if fd = [] then [] else CHR ''.'' # fd)"
    unfolding numeral_shape_def using ip nd
    by (cases "fd = []") (simp_all add: list_all_iff dropWhile_append2)
  have tfd: "takeWhile isDigit fd = fd" "dropWhile isDigit fd = []"
    using fd by (simp_all add: list_all_iff)
  have nn: "\<not> (ip = [] \<and> fd = [])" using ne by (auto simp: numeral_shape_def)
  have "parseUnsigned ?s = fromRat (decimalValue ip fd)"
    using t8 nn
    by (auto simp: parseUnsigned_def Let_def tw dw tfd exponentPart_def decimalValue_def)
  then show ?thesis
    using t1 by (simp add: parseFloat_def Let_def s0)
qed

lemma isNaN_fromRat [simp]: "\<not> isNaN (fromRat r)"
  by (simp add: fromRat_def)

section \<open>Weights that stay finite\<close>

text \<open>A finite number between 0 and \<open>2^n\<close>, and a segment with a finite weight.\<close>

definition boundedBy :: "nat \<Rightarrow> jsnum \<Rightarrow> bool" where
  "boundedBy n x = (case x of Num r \<Rightarrow> 0 \<le> r \<and> r \<le> 2 ^ n | _ \<Rightarrow> False)"

definition finiteWeight :: "ParsedSegment \<Rightarrow> bool" where
  "finiteWeight seg = (case weight seg of Some x \<Rightarrow> isFinite x | None \<Rightarrow> False)"

lemma boundedBy_mono: "boundedBy m x \<Longrightarrow> m \<le> n \<Longrightarrow> boundedBy n x"
proof -
  assume w: "boundedBy m x" and mn: "m \<le> n"
  have "(2::rat) ^ m \<le> 2 ^ n" using mn by (intro power_increasing) simp_all
  with w show ?thesis by (cases x) (auto simp: boundedBy_def intro: order_trans)
qed

lemma boundedBy_fromRat:
  assumes "0 \<le> r" "r \<le> 2 ^ n" "n \<le> 1023"
  shows "boundedBy n (fromRat r)"
  using fromRat_bounded [OF assms] by (auto simp: boundedBy_def)

lemma boundedBy_mul:
  assumes "boundedBy a x" "boundedBy b y" "a + b \<le> 1023"
  shows "boundedBy (a + b) (js_mul x y)"
proof -
  from assms obtain r s where x: "x = Num r" "0 \<le> r" "r \<le> 2 ^ a"
    and y: "y = Num s" "0 \<le> s" "s \<le> 2 ^ b"
    by (auto simp: boundedBy_def split: jsnum.splits)
  have "r * s \<le> 2 ^ a * 2 ^ b" using x y by (intro mult_mono) simp_all
  then have "r * s \<le> 2 ^ (a + b)" by (simp add: power_add)
  moreover have "0 \<le> r * s" using x y by simp
  ultimately show ?thesis using assms(3) x(1) y(1) by (simp add: boundedBy_fromRat)
qed

lemma boundedBy_one: "boundedBy 0 (Num 1)"
  by (simp add: boundedBy_def)

lemma boundedBy_isFinite: "boundedBy n x \<Longrightarrow> isFinite x"
  by (auto simp: boundedBy_def split: jsnum.splits)

lemma boundedBy_roundWeight:
  assumes "boundedBy n x" "n \<le> 1016"
  shows "isFinite (roundWeight x)"
proof -
  from assms obtain r where x: "x = Num r" "0 \<le> r" "r \<le> 2 ^ n"
    by (auto simp: boundedBy_def split: jsnum.splits)
  have "r * 100 \<le> 2 ^ n * 2 ^ 7" using x(2,3) by (intro mult_mono) simp_all
  then have "r * 100 \<le> 2 ^ (n + 7)" by (simp only: power_add)
  moreover have "0 \<le> r * 100" using x(2) by simp
  ultimately obtain p where p: "fromRat (r * 100) = Num p" "0 \<le> p" "p \<le> 2 ^ (n + 7)"
    using fromRat_bounded [of "r * 100" "n + 7"] assms(2) by auto
  define k where "k = \<lfloor>p + 1 / 2\<rfloor>"
  have "of_int k \<le> p + 1 / 2" unfolding k_def by linarith
  then have "(of_int k :: rat) < of_int (2 ^ (n + 7)) + 1" using p(3) by simp
  then have "k < 2 ^ (n + 7) + 1" by (metis of_int_1 of_int_add of_int_less_iff)
  then have "(of_int k :: rat) \<le> of_int (2 ^ (n + 7))" by (simp only: of_int_le_iff; simp)
  moreover have "(of_int (2 ^ (n + 7)) :: rat) = 2 ^ (n + 7)" by simp
  ultimately have k1: "(of_int k :: rat) \<le> 2 ^ (n + 7)" by (simp only:)
  have "0 \<le> k" unfolding k_def using p(2) by simp
  then have k2: "0 \<le> (of_int k :: rat)" by simp
  then have k0: "0 \<le> (of_int k :: rat) / 100" by simp
  have "(of_int k :: rat) / 100 \<le> of_int k" using k2 by simp
  then have kb: "(of_int k :: rat) / 100 \<le> 2 ^ (n + 7)" using k1 by linarith
  have "boundedBy (n + 7) (fromRat (of_int k / 100))"
    using k0 kb assms(2) by (intro boundedBy_fromRat) simp_all
  moreover have "roundWeight x = fromRat (of_int k / 100)"
    by (simp add: roundWeight_def x(1) p(1) k_def)
  ultimately show ?thesis by (simp add: boundedBy_isFinite)
qed

subsection \<open>Powers of the four literals\<close>

lemma power_step_bound:
  fixes d :: rat
  assumes "1 \<le> d" "d ^ p \<le> 2" "0 < p"
  shows "d ^ c \<le> 2 ^ (c div p + 1)"
proof -
  have "d ^ c = (d ^ p) ^ (c div p) * d ^ (c mod p)"
    by (simp add: power_mult [symmetric] power_add [symmetric])
  also have "\<dots> \<le> 2 ^ (c div p) * d ^ p"
  proof (intro mult_mono)
    show "(d ^ p) ^ (c div p) \<le> 2 ^ (c div p)"
      using assms(1,2) by (intro power_mono) simp_all
    show "d ^ (c mod p) \<le> d ^ p"
      using assms(1,3) by (intro power_increasing) simp_all
  qed (use assms(1) in simp_all)
  also have "\<dots> \<le> 2 ^ (c div p) * 2"
    using assms(2) by (intro mult_left_mono) simp_all
  finally show ?thesis by simp
qed

lemma powi_bound_up:
  fixes d :: rat
  assumes "1 \<le> d" "d ^ p \<le> 2" "0 < p" "c \<le> int D"
  shows "0 \<le> power_int d c" "power_int d c \<le> 2 ^ (D div p + 1)"
proof -
  have d0: "0 < d" using assms(1) by linarith
  then show "0 \<le> power_int d c" by simp
  show "power_int d c \<le> 2 ^ (D div p + 1)"
  proof (cases "0 \<le> c")
    case True
    then have "power_int d c = d ^ nat c" by (simp add: power_int_def)
    also have "\<dots> \<le> d ^ D"
      using assms(1,4) True by (intro power_increasing) simp_all
    also have "\<dots> \<le> 2 ^ (D div p + 1)"
      using assms(1,2,3) by (rule power_step_bound)
    finally show ?thesis .
  next
    case False
    then have "power_int d c = inverse d ^ nat (- c)" by (simp add: power_int_def)
    also have "\<dots> \<le> 1 ^ nat (- c)"
      using assms(1) d0 by (intro power_mono) (simp_all add: inverse_le_1_iff)
    also have "\<dots> = 1" by simp
    also have "1 \<le> (2::rat) ^ (D div p + 1)" by (rule one_le_power) simp
    finally show ?thesis .
  qed
qed

lemma powi_bound_down:
  fixes d :: rat
  assumes "0 < d" "d \<le> 1" "inverse d ^ p \<le> 2" "0 < p" "- int D \<le> c"
  shows "0 \<le> power_int d c" "power_int d c \<le> 2 ^ (D div p + 1)"
proof -
  have i: "1 \<le> inverse d" using assms(1,2) by (simp add: one_le_inverse_iff)
  have e: "power_int d c = power_int (inverse d) (- c)"
    by (simp add: power_int_minus power_int_inverse)
  have "- c \<le> int D" using assms(5) by simp
  from powi_bound_up [OF i assms(3,4) this] show
    "0 \<le> power_int d c" "power_int d c \<le> 2 ^ (D div p + 1)"
    by (simp_all add: e)
qed

lemma literal_105: "\<exists>d. fromRat (105 / 100) = Num d \<and> 1 \<le> d \<and> d ^ 14 \<le> 2"
  by (rule exI [of _ "4728779608739021 / 4503599627370496"]) (simp add: num_ev)

lemma literal_95: "\<exists>d. fromRat (95 / 100) = Num d \<and> 0 < d \<and> d \<le> 1 \<and> inverse d ^ 13 \<le> 2"
  by (rule exI [of _ "4278419646001971 / 4503599627370496"]) (simp add: num_ev)

lemma literal_11: "\<exists>d. fromRat (11 / 10) = Num d \<and> 1 \<le> d \<and> d ^ 7 \<le> 2"
  by (rule exI [of _ "2476979795053773 / 2251799813685248"]) (simp add: num_ev)

lemma literal_9: "\<exists>d. fromRat (9 / 10) = Num d \<and> 0 < d \<and> d \<le> 1"
  by (rule exI [of _ "8106479329266893 / 9007199254740992"]) (simp add: num_ev)

lemma boundedBy_pow_105: "c \<le> 1000 \<Longrightarrow> boundedBy 72 (Math_pow (105 / 100) c)"
proof -
  assume c: "c \<le> 1000"
  from literal_105 obtain d where d: "fromRat (105 / 100) = Num d" "1 \<le> d" "d ^ 14 \<le> 2"
    by blast
  have "c \<le> int 1000" using c by simp
  from powi_bound_up [OF d(2,3) _ this] have b: "0 \<le> power_int d c" "power_int d c \<le> 2 ^ 72"
    by simp_all
  show ?thesis
    unfolding Math_pow_def d(1) by (simp only: jsnum.case) (rule boundedBy_fromRat [OF b], simp)
qed

lemma boundedBy_pow_95: "- 1000 \<le> c \<Longrightarrow> boundedBy 77 (Math_pow (95 / 100) c)"
proof -
  assume c: "- 1000 \<le> c"
  from literal_95 obtain d where d: "fromRat (95 / 100) = Num d" "0 < d" "d \<le> 1"
    "inverse d ^ 13 \<le> 2"
    by blast
  have "- int 1000 \<le> c" using c by simp
  from powi_bound_down [OF d(2,3,4) _ this] have b: "0 \<le> power_int d c" "power_int d c \<le> 2 ^ 77"
    by simp_all
  show ?thesis
    unfolding Math_pow_def d(1) by (simp only: jsnum.case) (rule boundedBy_fromRat [OF b], simp)
qed

lemma boundedBy_pow_11: "c \<le> 1000 \<Longrightarrow> boundedBy 143 (Math_pow (11 / 10) c)"
proof -
  assume c: "c \<le> 1000"
  from literal_11 obtain d where d: "fromRat (11 / 10) = Num d" "1 \<le> d" "d ^ 7 \<le> 2"
    by blast
  have "c \<le> int 1000" using c by simp
  from powi_bound_up [OF d(2,3) _ this] have b: "0 \<le> power_int d c" "power_int d c \<le> 2 ^ 143"
    by simp_all
  show ?thesis
    unfolding Math_pow_def d(1) by (simp only: jsnum.case) (rule boundedBy_fromRat [OF b], simp)
qed

lemma boundedBy_pow_9: "0 \<le> c \<Longrightarrow> boundedBy 0 (Math_pow (9 / 10) c)"
proof -
  assume c: "0 \<le> c"
  from literal_9 obtain d where d: "fromRat (9 / 10) = Num d" "0 < d" "d \<le> 1"
    by blast
  have "power_int d c = d ^ nat c" using c by (simp add: power_int_def)
  moreover have "d ^ nat c \<le> 1 ^ nat c" using d(2,3) by (intro power_mono) simp_all
  moreover have "0 \<le> d ^ nat c" using d(2) by simp
  ultimately have b: "0 \<le> power_int d c" "power_int d c \<le> 2 ^ 0" by simp_all
  show ?thesis
    unfolding Math_pow_def d(1) by (simp only: jsnum.case) (rule boundedBy_fromRat [OF b], simp)
qed

subsection \<open>Runs of digits\<close>

text \<open>The length of the longest run of digits in a text.\<close>

fun longestDigitRun :: "string \<Rightarrow> nat" where
  "longestDigitRun [] = 0"
| "longestDigitRun (c # cs) = max (length (takeWhile isDigit (c # cs))) (longestDigitRun cs)"

lemma longestDigitRun_head: "length (takeWhile isDigit s) \<le> longestDigitRun s"
  by (cases s) simp_all

lemma longestDigitRun_tail: "longestDigitRun t \<le> longestDigitRun (xs @ t)"
proof (induction xs)
  case Nil
  then show ?case by simp
next
  case (Cons x xs)
  have "longestDigitRun (xs @ t) \<le> longestDigitRun (x # xs @ t)" by simp
  with Cons show ?case by simp
qed

lemma pow10_pow2: "(10::rat) ^ n \<le> 2 ^ (4 * n)"
proof -
  have "(10::rat) ^ n \<le> 16 ^ n" by (intro power_mono) simp_all
  also have "(16::rat) ^ n = (2 ^ 4) ^ n" by simp
  also have "\<dots> = 2 ^ (4 * n)" by (simp only: power_mult)
  finally show ?thesis .
qed

lemma boundedBy_parseFloat:
  assumes ip: "list_all isDigit ip" and fd: "list_all isDigit fd"
    and ne: "numeral_shape ip fd \<noteq> []" and len: "length ip \<le> 200"
  shows "boundedBy 800 (parseFloat (numeral_shape ip fd))"
proof -
  have "decimalValue ip fd \<le> 10 ^ length ip"
    using decimalValue_bounds(2) [OF ip fd] by simp
  also have "\<dots> \<le> 2 ^ (4 * length ip)" by (rule pow10_pow2)
  also have "\<dots> \<le> 2 ^ 800" using len by (intro power_increasing) simp_all
  finally have "decimalValue ip fd \<le> 2 ^ 800" .
  then have "boundedBy 800 (fromRat (decimalValue ip fd))"
    using decimalValue_bounds(1) [OF ip fd] by (intro boundedBy_fromRat) simp_all
  then show ?thesis by (simp add: parseFloat_shape [OF ip fd ne])
qed

lemma takeWhile_digits_stop:
  "list_all isDigit ds \<Longrightarrow> \<not> isDigit c \<Longrightarrow> takeWhile isDigit (ds @ c # t) = ds"
  "list_all isDigit ds \<Longrightarrow> \<not> isDigit c \<Longrightarrow> dropWhile isDigit (ds @ c # t) = c # t"
  by (simp_all add: list_all_iff takeWhile_append2 dropWhile_append2)

lemma numeral_shape_run:
  assumes "list_all isDigit ip" "\<not> isDigit c"
  shows "takeWhile isDigit (numeral_shape ip fd @ c # t) = ip"
proof (cases "fd = []")
  case True
  then show ?thesis using takeWhile_digits_stop(1) [OF assms] by (simp add: numeral_shape_def)
next
  case False
  have "\<not> isDigit (CHR ''.'')" by (simp add: isDigit_def)
  from takeWhile_digits_stop(1) [OF assms(1) this, of "fd @ c # t"] False
  show ?thesis by (simp add: numeral_shape_def)
qed

subsection \<open>The depths along a scan\<close>

text \<open>
  The local variables of \<open>parseNovelAI\<close> each time the loop tests \<open>i < text.length\<close>,
  in order, the last being those the loop leaves.
\<close>

function naiStates :: "string \<Rightarrow> naiState \<Rightarrow> naiState list" where
  "naiStates [] st = [st]"
| "naiStates (c # cs) st =
     st # (case matchWeightControl (c # cs) of
             Some (numStr, rest) \<Rightarrow> naiStates rest (weightControl numStr (flushNovelAI st))
           | None \<Rightarrow> naiStates cs (charNovelAI c st))"
  by pat_completeness auto
termination
  by (relation "measure (\<lambda>(s, st). length s)")
     (auto dest: matchWeightControl_shorter)

text \<open>The same for \<open>parsePixAI\<close>.\<close>

function pixStates :: "string \<Rightarrow> pixState \<Rightarrow> pixState list" where
  "pixStates [] st = [st]"
| "pixStates [c] st =
     st # (case (if c = CHR ''('' then matchExplicitWeight [c] else None) of
             Some (m, numStr, rest) \<Rightarrow> pixStates rest (explicitWeight m numStr st)
           | None \<Rightarrow> [charPixAI c st])"
| "pixStates (c # d # cs) st =
     st # (if c = CHR 0x5C then pixStates cs (st\<lparr>bufferP := bufferP st @ [c, d]\<rparr>)
           else
             (case (if c = CHR ''('' then matchExplicitWeight (c # d # cs) else None) of
                Some (m, numStr, rest) \<Rightarrow> pixStates rest (explicitWeight m numStr st)
              | None \<Rightarrow> pixStates (d # cs) (charPixAI c st)))"
  by pat_completeness auto
termination
  by (relation "measure (\<lambda>(s, st). length s)")
     (auto dest: matchExplicitWeight_shorter split: if_splits)

declare naiStates.simps [simp del] pixStates.simps [simp del]

text \<open>
  Depths from which the power of a literal cannot leave the range: at most 1000 levels of
  braces and at most 1000 closed square brackets too many in Format A, at most 1000 levels
  of parentheses in Format B.
\<close>

definition depthsNovelAI :: "naiState \<Rightarrow> bool" where
  "depthsNovelAI st = (curlyDepth st \<le> 1000 \<and> - 1000 \<le> squareDepth st)"

definition depthsPixAI :: "pixState \<Rightarrow> bool" where
  "depthsPixAI st = (parenDepth st \<le> 1000)"

lemma naiStates_nonempty [simp]: "naiStates t st \<noteq> []"
  by (cases t) (simp_all add: naiStates.simps)

lemma pixStates_nonempty [simp]: "pixStates t st \<noteq> []"
  by (cases "(t, st)" rule: pixStates.cases) (auto simp: pixStates.simps)

lemma naiStates_last: "last (naiStates t st) = naiLoop t st"
  by (induction t st rule: naiLoop.induct) (auto simp: naiStates.simps split: option.splits)

lemma pixStates_last: "last (pixStates t st) = pixLoop t st"
  by (induction t st rule: pixLoop.induct) (auto simp: pixStates.simps split: option.splits)

subsection \<open>parseNovelAI\<close>

text \<open>What the loop keeps: a base weight below \<open>2^800\<close> and finite weights so far.\<close>

definition invNovelAI :: "naiState \<Rightarrow> bool" where
  "invNovelAI st =
     (boundedBy 800 (activeBaseWeight st) \<and> list_all finiteWeight (segments st))"

lemma finalWeightNovelAI_finite:
  assumes "boundedBy 800 (activeBaseWeight st)" "depthsNovelAI st"
  shows "isFinite (finalWeightNovelAI st)"
proof -
  have c: "boundedBy 72 (Math_pow (105 / 100) (curlyDepth st))"
    using assms(2) by (intro boundedBy_pow_105) (simp add: depthsNovelAI_def)
  have s: "boundedBy 77 (Math_pow (95 / 100) (squareDepth st))"
    using assms(2) by (intro boundedBy_pow_95) (simp add: depthsNovelAI_def)
  have m1: "boundedBy (800 + 72)
          (js_mul (activeBaseWeight st) (Math_pow (105 / 100) (curlyDepth st)))"
    using assms(1) c by (rule boundedBy_mul) simp
  have "boundedBy (800 + 72 + 77)
          (js_mul (js_mul (activeBaseWeight st) (Math_pow (105 / 100) (curlyDepth st)))
                  (Math_pow (95 / 100) (squareDepth st)))"
    using m1 s by (rule boundedBy_mul) simp
  then show ?thesis
    unfolding finalWeightNovelAI_def by (rule boundedBy_roundWeight) simp
qed

lemma inv_flushNovelAI:
  "invNovelAI st \<Longrightarrow> depthsNovelAI st \<Longrightarrow> invNovelAI (flushNovelAI st)"
  by (auto simp: invNovelAI_def flushNovelAI_segments finiteWeight_def
      intro: finalWeightNovelAI_finite)

lemma inv_charNovelAI:
  assumes "invNovelAI st" "depthsNovelAI st"
  shows "invNovelAI (charNovelAI c st)"
proof -
  from assms have "invNovelAI (flushNovelAI st)" by (rule inv_flushNovelAI)
  then have "invNovelAI ((flushNovelAI st)\<lparr>curlyDepth := a\<rparr>)"
    "invNovelAI ((flushNovelAI st)\<lparr>squareDepth := a\<rparr>)" for a
    by (simp_all add: invNovelAI_def)
  moreover from assms(1) have "invNovelAI (st\<lparr>buffer := buffer st @ [c]\<rparr>)"
    by (simp add: invNovelAI_def)
  ultimately show ?thesis
    using \<open>invNovelAI (flushNovelAI st)\<close> by (simp add: charNovelAI_def Let_def)
qed

lemma matchWeightControl_run:
  assumes "matchWeightControl s = Some (numStr, rest)"
  shows "\<exists>ip fd. list_all isDigit ip \<and> list_all isDigit fd \<and> numStr = numeral_shape ip fd \<and>
           length ip \<le> longestDigitRun s \<and> longestDigitRun rest \<le> longestDigitRun s"
proof -
  from matchWeightControl_shape [OF assms] obtain ip fd where
    ip: "list_all isDigit ip" and fd: "list_all isDigit fd"
    and n: "numStr = numeral_shape ip fd" and s: "s = numStr @ ''::'' @ rest"
    by blast
  have "\<not> isDigit (CHR '':'')" by (simp add: isDigit_def)
  from numeral_shape_run [OF ip this, of fd "CHR '':'' # rest"]
  have "takeWhile isDigit s = ip" by (simp add: s n)
  then have "length ip \<le> longestDigitRun s"
    using longestDigitRun_head [of s] by simp
  moreover have "longestDigitRun rest \<le> longestDigitRun s"
    unfolding s using longestDigitRun_tail [of rest "numStr @ ''::''"] by simp
  ultimately show ?thesis using ip fd n by blast
qed

lemma inv_weightControl:
  assumes inv: "invNovelAI st"
    and m: "matchWeightControl s = Some (numStr, rest)"
    and len: "longestDigitRun s \<le> 200"
  shows "invNovelAI (weightControl numStr st)"
proof -
  from matchWeightControl_run [OF m] obtain ip fd where
    ip: "list_all isDigit ip" and fd: "list_all isDigit fd"
    and n: "numStr = numeral_shape ip fd" and l: "length ip \<le> longestDigitRun s"
    by blast
  from inv have f: "list_all finiteWeight (segments st)" by (simp add: invNovelAI_def)
  show ?thesis
  proof (cases "numStr = []")
    case True
    have "boundedBy 800 (Num 1)" using boundedBy_one by (rule boundedBy_mono) simp
    then show ?thesis
      using f True by (simp add: invNovelAI_def weightControl_def Let_def)
  next
    case False
    have "boundedBy 800 (parseFloat numStr)"
      unfolding n using ip fd False l len n by (intro boundedBy_parseFloat) simp_all
    moreover have "\<not> isNaN (parseFloat numStr)"
      unfolding n using False n by (simp add: parseFloat_shape [OF ip fd])
    ultimately show ?thesis
      using f False by (auto simp: invNovelAI_def weightControl_def Let_def)
  qed
qed

lemma inv_naiLoop:
  "invNovelAI st \<Longrightarrow> list_all depthsNovelAI (naiStates t st) \<Longrightarrow>
   longestDigitRun t \<le> 200 \<Longrightarrow> invNovelAI (naiLoop t st)"
proof (induction t st rule: naiLoop.induct)
  case (1 st)
  then show ?case by simp
next
  case (2 c cs st)
  from "2.prems"(2) have d: "depthsNovelAI st" by (simp add: naiStates.simps)
  show ?case
  proof (cases "matchWeightControl (c # cs)")
    case None
    have "invNovelAI (charNovelAI c st)" using "2.prems"(1) d by (rule inv_charNovelAI)
    moreover have "list_all depthsNovelAI (naiStates cs (charNovelAI c st))"
      using "2.prems"(2) None by (simp add: naiStates.simps)
    moreover have "longestDigitRun cs \<le> 200" using "2.prems"(3) by simp
    ultimately show ?thesis using "2.IH"(1) [OF None] None by simp
  next
    case (Some a)
    obtain numStr rest where "a = (numStr, rest)" by (cases a)
    with Some have m: "matchWeightControl (c # cs) = Some (numStr, rest)" by simp
    have "invNovelAI (weightControl numStr (flushNovelAI st))"
      using inv_flushNovelAI [OF "2.prems"(1) d] m "2.prems"(3) by (rule inv_weightControl)
    moreover have "list_all depthsNovelAI (naiStates rest (weightControl numStr (flushNovelAI st)))"
      using "2.prems"(2) m by (simp add: naiStates.simps)
    moreover have "longestDigitRun rest \<le> 200"
      using matchWeightControl_run [OF m] "2.prems"(3) by auto
    ultimately show ?thesis using "2.IH"(2) [OF m refl] m by simp
  qed
qed

lemma parseNovelAI_finite:
  assumes "longestDigitRun text \<le> 200"
    and "list_all depthsNovelAI (naiStates text (initNovelAI g))"
  shows "list_all finiteWeight (fst (parseNovelAI g text))"
proof -
  have "invNovelAI (initNovelAI g)"
    using boundedBy_mono [OF boundedBy_one, of 800] by (simp add: invNovelAI_def initNovelAI_def)
  then have "invNovelAI (naiLoop text (initNovelAI g))"
    using assms(2,1) by (rule inv_naiLoop)
  moreover have "depthsNovelAI (naiLoop text (initNovelAI g))"
    using assms(2) last_in_set [OF naiStates_nonempty, of "text" "initNovelAI g"]
    by (simp add: list_all_iff naiStates_last)
  ultimately have "invNovelAI (runNovelAI g text)"
    unfolding runNovelAI_def by (rule inv_flushNovelAI)
  then show ?thesis by (simp add: parseNovelAI_def invNovelAI_def)
qed

subsection \<open>parsePixAI\<close>

lemma contentRun_append: "fst (contentRun s) @ snd (contentRun s) = s"
  by (induction s rule: contentRun.induct) auto

lemma matchExplicitWeight_shape:
  assumes "matchExplicitWeight s = Some (m, numStr, rest)"
  shows "\<exists>ip fd. list_all isDigit ip \<and> list_all isDigit fd \<and> ip \<noteq> [] \<and>
           numStr = numeral_shape ip fd \<and> m = fst (contentRun (drop 1 s)) \<and> m \<noteq> [] \<and>
           s = ''('' @ m @ '':'' @ numStr @ '')'' @ rest"
proof -
  obtain m' r0 where cr: "contentRun (drop 1 s) = (m', r0)"
    by (cases "contentRun (drop 1 s)")
  obtain fp r1 where fr: "fraction (dropWhile isDigit (drop 1 r0)) = (fp, r1)"
    by (cases "fraction (dropWhile isDigit (drop 1 r0))")
  from assms cr fr have s: "take 1 s = ''(''" and m: "m = m'" "m' \<noteq> []"
    and r0: "take 1 r0 = '':''" and ipn: "takeWhile isDigit (drop 1 r0) \<noteq> []"
    and r1: "take 1 r1 = '')''" and rest: "rest = drop 1 r1"
    and n: "numStr = takeWhile isDigit (drop 1 r0) @ fp"
    by (auto simp: matchExplicitWeight_def Let_def split: if_splits)
  from fraction_shape [OF fr] obtain fd where fd: "list_all isDigit fd"
    "fp = (if fd = [] then [] else CHR ''.'' # fd)" "dropWhile isDigit (drop 1 r0) = fp @ r1"
    by blast
  have s': "s = ''('' @ drop 1 s" using s by (metis append_take_drop_id)
  have d: "drop 1 s = m' @ r0" using contentRun_append [of "drop 1 s"] cr by simp
  have r0': "r0 = '':'' @ drop 1 r0" using r0 by (metis append_take_drop_id)
  have r1': "r1 = '')'' @ rest" using r1 rest by (metis append_take_drop_id)
  have "drop 1 r0 = numStr @ r1"
    using fd(3) n by (metis append.assoc takeWhile_dropWhile_id)
  with s' d r0' r1' have "s = ''('' @ m' @ '':'' @ numStr @ '')'' @ rest"
    by (metis append.assoc)
  then show ?thesis
    using fd(1,2) n m ipn cr
    by (intro exI [of _ "takeWhile isDigit (drop 1 r0)"] exI [of _ fd])
      (simp add: numeral_shape_def takeWhile_digits)
qed

lemma matchExplicitWeight_run:
  assumes "matchExplicitWeight s = Some (m, numStr, rest)"
  shows "\<exists>ip fd. list_all isDigit ip \<and> list_all isDigit fd \<and> ip \<noteq> [] \<and>
           numStr = numeral_shape ip fd \<and>
           length ip \<le> longestDigitRun s \<and> longestDigitRun rest \<le> longestDigitRun s"
proof -
  from matchExplicitWeight_shape [OF assms] obtain ip fd where
    ip: "list_all isDigit ip" "ip \<noteq> []" and fd: "list_all isDigit fd"
    and n: "numStr = numeral_shape ip fd"
    and s: "s = ''('' @ m @ '':'' @ numStr @ '')'' @ rest"
    by blast
  let ?t = "numStr @ '')'' @ rest"
  have "\<not> isDigit (CHR '')'')" by (simp add: isDigit_def)
  from numeral_shape_run [OF ip(1) this, of fd rest]
  have "takeWhile isDigit ?t = ip" by (simp add: n)
  then have "length ip \<le> longestDigitRun ?t"
    using longestDigitRun_head [of ?t] by simp
  moreover have "longestDigitRun ?t \<le> longestDigitRun s"
    unfolding s using longestDigitRun_tail [of ?t "''('' @ m @ '':''"] by simp
  moreover have "longestDigitRun rest \<le> longestDigitRun s"
    unfolding s using longestDigitRun_tail [of rest "''('' @ m @ '':'' @ numStr @ '')''"] by simp
  ultimately show ?thesis using ip fd n by (intro exI [of _ ip] exI [of _ fd]) simp
qed

text \<open>What the loop keeps: a square depth that is not negative and finite weights so far.\<close>

definition invPixAI :: "pixState \<Rightarrow> bool" where
  "invPixAI st = (0 \<le> squareDepthP st \<and> list_all finiteWeight (segmentsP st))"

lemma finalWeightPixAI_finite:
  assumes "0 \<le> squareDepthP st" "depthsPixAI st"
  shows "isFinite (finalWeightPixAI st)"
proof -
  have p: "boundedBy 143 (Math_pow (11 / 10) (parenDepth st))"
    using assms(2) by (intro boundedBy_pow_11) (simp add: depthsPixAI_def)
  have s: "boundedBy 0 (Math_pow (9 / 10) (squareDepthP st))"
    using assms(1) by (rule boundedBy_pow_9)
  have m1: "boundedBy (0 + 143) (js_mul (Num 1) (Math_pow (11 / 10) (parenDepth st)))"
    using boundedBy_one p by (rule boundedBy_mul) simp
  have "boundedBy (0 + 143 + 0)
          (js_mul (js_mul (Num 1) (Math_pow (11 / 10) (parenDepth st)))
                  (Math_pow (9 / 10) (squareDepthP st)))"
    using m1 s by (rule boundedBy_mul) simp
  then show ?thesis
    unfolding finalWeightPixAI_def by (rule boundedBy_roundWeight) simp
qed

lemma inv_flushPixAI: "invPixAI st \<Longrightarrow> depthsPixAI st \<Longrightarrow> invPixAI (flushPixAI st)"
  by (auto simp: invPixAI_def flushPixAI_segments finiteWeight_def
      intro: finalWeightPixAI_finite)

lemma inv_charPixAI:
  assumes "invPixAI st" "depthsPixAI st"
  shows "invPixAI (charPixAI c st)"
proof -
  from assms have f: "invPixAI (flushPixAI st)" by (rule inv_flushPixAI)
  from assms(1) have "invPixAI (st\<lparr>bufferP := bufferP st @ [c]\<rparr>)"
    by (auto simp: invPixAI_def)
  then show ?thesis
    using f by (auto simp: charPixAI_def Let_def invPixAI_def)
qed

lemma inv_explicitWeight:
  assumes inv: "invPixAI st" "depthsPixAI st"
    and m: "matchExplicitWeight s = Some (m, numStr, rest)"
    and len: "longestDigitRun s \<le> 200"
  shows "invPixAI (explicitWeight m numStr st)"
proof -
  from matchExplicitWeight_run [OF m] obtain ip fd where
    ip: "list_all isDigit ip" and fd: "list_all isDigit fd" and ne: "ip \<noteq> []"
    and n: "numStr = numeral_shape ip fd" and l: "length ip \<le> longestDigitRun s"
    by blast
  from inv_flushPixAI [OF inv] have f: "list_all finiteWeight (segmentsP (flushPixAI st))"
    and q: "0 \<le> squareDepthP st"
    by (auto simp: invPixAI_def)
  have "boundedBy 800 (parseFloat numStr)"
    unfolding n using ip fd ne l len by (intro boundedBy_parseFloat) (simp_all add: numeral_shape_def)
  then have "isFinite (parseFloat numStr)" by (rule boundedBy_isFinite)
  then show ?thesis
    using f q by (simp add: invPixAI_def explicitWeight_segments finiteWeight_def)
qed

lemma inv_pixLoop:
  "invPixAI st \<Longrightarrow> list_all depthsPixAI (pixStates t st) \<Longrightarrow>
   longestDigitRun t \<le> 200 \<Longrightarrow> invPixAI (pixLoop t st)"
proof (induction t st rule: pixLoop.induct)
  case (1 st)
  then show ?case by simp
next
  case (2 c st)
  from "2.prems"(2) have d: "depthsPixAI st" by (simp add: pixStates.simps)
  show ?case
  proof (cases "if c = CHR ''('' then matchExplicitWeight [c] else None")
    case None
    then show ?thesis using inv_charPixAI [OF "2.prems"(1) d, of c] by simp
  next
    case (Some a)
    obtain m numStr rest where "a = (m, numStr, rest)" by (cases a)
    with Some have m:
      "(if c = CHR ''('' then matchExplicitWeight [c] else None) = Some (m, numStr, rest)"
      by simp
    then have m': "matchExplicitWeight [c] = Some (m, numStr, rest)" by (simp split: if_splits)
    have "invPixAI (explicitWeight m numStr st)"
      using "2.prems"(1) d m' "2.prems"(3) by (rule inv_explicitWeight)
    moreover have "list_all depthsPixAI (pixStates rest (explicitWeight m numStr st))"
      using "2.prems"(2) m by (simp add: pixStates.simps)
    moreover have "longestDigitRun rest \<le> 200"
      using matchExplicitWeight_run [OF m'] "2.prems"(3) by auto
    ultimately show ?thesis using "2.IH" [OF m refl refl] m by simp
  qed
next
  case (3 c d cs st)
  from "3.prems"(2) have dp: "depthsPixAI st" by (simp add: pixStates.simps)
  have l2: "longestDigitRun cs \<le> 200" "longestDigitRun (d # cs) \<le> 200"
    using "3.prems"(3) by simp_all
  show ?case
  proof (cases "c = CHR 0x5C")
    case True
    have "invPixAI (st\<lparr>bufferP := bufferP st @ [c, d]\<rparr>)"
      using "3.prems"(1) by (auto simp: invPixAI_def)
    moreover have "list_all depthsPixAI (pixStates cs (st\<lparr>bufferP := bufferP st @ [c, d]\<rparr>))"
      using "3.prems"(2) True by (simp add: pixStates.simps)
    ultimately show ?thesis using "3.IH"(1) [OF True] True l2(1) by simp
  next
    case False
    show ?thesis
    proof (cases "if c = CHR ''('' then matchExplicitWeight (c # d # cs) else None")
      case None
      have "invPixAI (charPixAI c st)" using "3.prems"(1) dp by (rule inv_charPixAI)
      moreover have "list_all depthsPixAI (pixStates (d # cs) (charPixAI c st))"
        using "3.prems"(2) None False by (simp add: pixStates.simps)
      ultimately show ?thesis using "3.IH"(2) [OF False None] None False l2(2) by simp
    next
      case (Some a)
      obtain m numStr rest where "a = (m, numStr, rest)" by (cases a)
      with Some have m:
        "(if c = CHR ''('' then matchExplicitWeight (c # d # cs) else None) =
         Some (m, numStr, rest)"
        by simp
      then have m': "matchExplicitWeight (c # d # cs) = Some (m, numStr, rest)"
        by (simp split: if_splits)
      have "invPixAI (explicitWeight m numStr st)"
        using "3.prems"(1) dp m' "3.prems"(3) by (rule inv_explicitWeight)
      moreover have "list_all depthsPixAI (pixStates rest (explicitWeight m numStr st))"
        using "3.prems"(2) m False by (simp add: pixStates.simps)
      moreover have "longestDigitRun rest \<le> 200"
        using matchExplicitWeight_run [OF m'] "3.prems"(3) by auto
      ultimately show ?thesis using "3.IH"(3) [OF False m refl refl] m False by simp
    qed
  qed
qed

lemma parsePixAI_finite:
  assumes "longestDigitRun text \<le> 200"
    and "list_all depthsPixAI (pixStates text (initPixAI g))"
  shows "list_all finiteWeight (fst (parsePixAI g text))"
proof -
  have "invPixAI (initPixAI g)" by (simp add: invPixAI_def initPixAI_def)
  then have "invPixAI (pixLoop text (initPixAI g))"
    using assms(2,1) by (rule inv_pixLoop)
  moreover have "depthsPixAI (pixLoop text (initPixAI g))"
    using assms(2) last_in_set [OF pixStates_nonempty, of "text" "initPixAI g"]
    by (simp add: list_all_iff pixStates_last)
  ultimately have "invPixAI (runPixAI g text)"
    unfolding runPixAI_def by (rule inv_flushPixAI)
  then show ?thesis by (simp add: parsePixAI_def invPixAI_def)
qed

subsection \<open>The number of a token always parses\<close>

lemma weightControl_parses:
  assumes "matchWeightControl s = Some (numStr, rest)" "numStr \<noteq> []"
  shows "\<not> isNaN (parseFloat numStr)"
proof -
  from matchWeightControl_shape [OF assms(1)] obtain ip fd where
    "list_all isDigit ip" "list_all isDigit fd" "numStr = numeral_shape ip fd"
    by blast
  with assms(2) show ?thesis by (simp add: parseFloat_shape)
qed

lemma explicitWeight_parses:
  assumes "matchExplicitWeight s = Some (m, numStr, rest)"
  shows "\<not> isNaN (parseFloat numStr)"
proof -
  from matchExplicitWeight_shape [OF assms] obtain ip fd where
    d: "list_all isDigit ip" "list_all isDigit fd" and ne: "ip \<noteq> []"
    and n: "numStr = numeral_shape ip fd"
    by blast
  from ne have "numeral_shape ip fd \<noteq> []" by (simp add: numeral_shape_def)
  with d n show ?thesis by (simp add: parseFloat_shape)
qed

subsection \<open>A literal beyond the doubles\<close>

lemma digitsVal_nines: "digitsVal (replicate n (CHR ''9'')) = 10 ^ n - 1"
proof (induction n)
  case 0
  then show ?case by (simp add: digitsVal_Nil)
next
  case (Suc n)
  have "(1::nat) \<le> 10 ^ n" by simp
  then have "10 * (10 ^ n - 1) + 9 = 10 * (10::nat) ^ n - 1" by linarith
  moreover have "replicate (Suc n) (CHR ''9'') = replicate n (CHR ''9'') @ ''9''"
    by (simp add: replicate_append_same)
  moreover have "digitVal (CHR ''9'') = 9" by (simp add: digitVal_def)
  ultimately show ?case
    using Suc by (simp only: digitsVal_snoc power_Suc)
qed

lemma parseFloat_nines: "parseFloat (replicate 310 (CHR ''9'')) = PosInf"
proof -
  let ?ds = "replicate 310 (CHR ''9'')"
  have d: "list_all isDigit ?ds" by (simp add: list_all_iff isDigit_def)
  have "parseFloat (numeral_shape ?ds []) = fromRat (decimalValue ?ds [])"
    by (rule parseFloat_shape [OF d]) (simp_all add: numeral_shape_def)
  moreover have "decimalValue ?ds [] = 10 ^ 310 - 1"
    by (simp add: decimalValue_def digitsVal_nines of_nat_diff)
  moreover have "fromRat (10 ^ 310 - 1) = PosInf"
    by (simp add: fromRat_def overflowThreshold_def)
  ultimately show ?thesis by (simp add: numeral_shape_def)
qed

lemma naiLoop_token:
  "matchWeightControl s = Some (numStr, rest) \<Longrightarrow>
   naiLoop s st = naiLoop rest (weightControl numStr (flushNovelAI st))"
  by (cases s) (simp_all add: matchWeightControl_def fraction_def)

lemma contentRun_colon: "contentRun (CHR '':'' # xs) = ([], CHR '':'' # xs)"
  by (cases xs) simp_all

subsection \<open>Depths and the number of brackets\<close>

text \<open>
  A depth cannot rise above the number of opening brackets read, nor fall below minus the
  number of closing brackets read; a token sets the depths of Format A back to zero.
\<close>

lemma count_list_tail: "count_list t x \<le> count_list (xs @ t) x"
  by (induction xs) simp_all

lemma depths_charNovelAI:
  "curlyDepth (charNovelAI c st) \<le> curlyDepth st + (if c = CHR ''{'' then 1 else 0)"
  "squareDepth st - (if c = CHR '']'' then 1 else 0) \<le> squareDepth (charNovelAI c st)"
  by (auto simp: charNovelAI_def Let_def)

lemma naiStates_counts:
  "list_all (\<lambda>s. curlyDepth s \<le> max 0 (curlyDepth st) + int (count_list t (CHR ''{'')) \<and>
                  min 0 (squareDepth st) - int (count_list t (CHR '']'')) \<le> squareDepth s)
     (naiStates t st)"
proof (induction t st rule: naiLoop.induct)
  case (1 st)
  then show ?case by (auto simp: naiStates.simps)
next
  case (2 c cs st)
  show ?case
  proof (cases "matchWeightControl (c # cs)")
    case None
    let ?st = "charNovelAI c st"
    have "list_all (\<lambda>s. curlyDepth s \<le> max 0 (curlyDepth ?st) + int (count_list cs (CHR ''{'')) \<and>
                  min 0 (squareDepth ?st) - int (count_list cs (CHR '']'')) \<le> squareDepth s)
       (naiStates cs ?st)"
      by (rule "2.IH"(1) [OF None])
    then have "list_all (\<lambda>s. curlyDepth s \<le> max 0 (curlyDepth st) + int (count_list (c # cs) (CHR ''{'')) \<and>
                  min 0 (squareDepth st) - int (count_list (c # cs) (CHR '']'')) \<le> squareDepth s)
       (naiStates cs ?st)"
      using depths_charNovelAI [where c = c and st = st]
      by (auto simp: list_all_iff split: if_splits)
    then show ?thesis using None by (auto simp: naiStates.simps)
  next
    case (Some a)
    obtain numStr rest where "a = (numStr, rest)" by (cases a)
    with Some have m: "matchWeightControl (c # cs) = Some (numStr, rest)" by simp
    let ?st = "weightControl numStr (flushNovelAI st)"
    from matchWeightControl_shape [OF m] have s: "c # cs = numStr @ ''::'' @ rest" by blast
    have k: "count_list rest x \<le> count_list (c # cs) x" for x
      unfolding s using count_list_tail [of rest x "numStr @ ''::''"] by simp
    have "list_all (\<lambda>s. curlyDepth s \<le> max 0 (curlyDepth ?st) + int (count_list rest (CHR ''{'')) \<and>
                  min 0 (squareDepth ?st) - int (count_list rest (CHR '']'')) \<le> squareDepth s)
       (naiStates rest ?st)"
      by (rule "2.IH"(2) [OF m refl])
    then have "list_all (\<lambda>s. curlyDepth s \<le> max 0 (curlyDepth st) + int (count_list (c # cs) (CHR ''{'')) \<and>
                  min 0 (squareDepth st) - int (count_list (c # cs) (CHR '']'')) \<le> squareDepth s)
       (naiStates rest ?st)"
      using k [of "CHR ''{''"] k [of "CHR '']''"]
      by (auto simp: list_all_iff)
    then show ?thesis using m by (auto simp: naiStates.simps)
  qed
qed

lemma few_brackets_depthsNovelAI:
  assumes "count_list text (CHR ''{'') \<le> 1000" "count_list text (CHR '']'') \<le> 1000"
  shows "list_all depthsNovelAI (naiStates text (initNovelAI g))"
  using naiStates_counts [of "initNovelAI g" "text"] assms
  by (auto simp: list_all_iff depthsNovelAI_def initNovelAI_def)

lemma depth_charPixAI:
  "parenDepth (charPixAI c st) \<le> max 0 (parenDepth st) + (if c = CHR ''('' then 1 else 0)"
  by (auto simp: charPixAI_def Let_def max_def)

lemma pixStates_counts:
  "list_all (\<lambda>s. parenDepth s \<le> max 0 (parenDepth st) + int (count_list t (CHR ''('')))
     (pixStates t st)"
proof (induction t st rule: pixLoop.induct)
  case (1 st)
  then show ?case by (auto simp: pixStates.simps)
next
  case (2 c st)
  show ?case
  proof (cases "if c = CHR ''('' then matchExplicitWeight [c] else None")
    case None
    then show ?thesis
      using depth_charPixAI [of c st] by (auto simp: pixStates.simps split: if_splits)
  next
    case (Some a)
    obtain m numStr rest where "a = (m, numStr, rest)" by (cases a)
    with Some have m:
      "(if c = CHR ''('' then matchExplicitWeight [c] else None) = Some (m, numStr, rest)"
      by simp
    then have m': "matchExplicitWeight [c] = Some (m, numStr, rest)" by (simp split: if_splits)
    from matchExplicitWeight_shape [OF m'] have False by auto
    then show ?thesis ..
  qed
next
  case (3 c d cs st)
  show ?case
  proof (cases "c = CHR 0x5C")
    case True
    let ?st = "st\<lparr>bufferP := bufferP st @ [c, d]\<rparr>"
    have "list_all (\<lambda>s. parenDepth s \<le> max 0 (parenDepth ?st) + int (count_list cs (CHR ''('')))
        (pixStates cs ?st)"
      by (rule "3.IH"(1) [OF True])
    then have "list_all (\<lambda>s. parenDepth s \<le> max 0 (parenDepth st) +
          int (count_list (c # d # cs) (CHR ''('')))
        (pixStates cs ?st)"
      by (auto simp: list_all_iff)
    then show ?thesis using True by (auto simp: pixStates.simps)
  next
    case False
    show ?thesis
    proof (cases "if c = CHR ''('' then matchExplicitWeight (c # d # cs) else None")
      case None
      let ?st = "charPixAI c st"
      have "list_all (\<lambda>s. parenDepth s \<le> max 0 (parenDepth ?st) +
            int (count_list (d # cs) (CHR ''('')))
          (pixStates (d # cs) ?st)"
        by (rule "3.IH"(2) [OF False None])
      then have "list_all (\<lambda>s. parenDepth s \<le> max 0 (parenDepth st) +
            int (count_list (c # d # cs) (CHR ''('')))
          (pixStates (d # cs) ?st)"
        using depth_charPixAI [of c st] by (auto simp: list_all_iff split: if_splits)
      then show ?thesis using None False by (auto simp: pixStates.simps)
    next
      case (Some a)
      obtain m numStr rest where "a = (m, numStr, rest)" by (cases a)
      with Some have m:
        "(if c = CHR ''('' then matchExplicitWeight (c # d # cs) else None) =
         Some (m, numStr, rest)"
        by simp
      then have m': "matchExplicitWeight (c # d # cs) = Some (m, numStr, rest)"
        by (simp split: if_splits)
      let ?st = "explicitWeight m numStr st"
      from matchExplicitWeight_shape [OF m']
      have s: "c # d # cs = ''('' @ m @ '':'' @ numStr @ '')'' @ rest" by blast
      have k: "count_list rest (CHR ''('') \<le> count_list (c # d # cs) (CHR ''('')"
        unfolding s
        using count_list_tail [of rest "CHR ''(''" "''('' @ m @ '':'' @ numStr @ '')''"]
        by simp
      have "list_all (\<lambda>s. parenDepth s \<le> max 0 (parenDepth ?st) +
            int (count_list rest (CHR ''('')))
          (pixStates rest ?st)"
        by (rule "3.IH"(3) [OF False m refl refl])
      then have "list_all (\<lambda>s. parenDepth s \<le> max 0 (parenDepth st) +
            int (count_list (c # d # cs) (CHR ''('')))
          (pixStates rest ?st)"
        using k by (auto simp: list_all_iff)
      then show ?thesis using m False by (auto simp: pixStates.simps)
    qed
  qed
qed

lemma few_brackets_depthsPixAI:
  assumes "count_list text (CHR ''('') \<le> 1000"
  shows "list_all depthsPixAI (pixStates text (initPixAI g))"
  using pixStates_counts [of "initPixAI g" "text"] assms
  by (auto simp: list_all_iff depthsPixAI_def initPixAI_def)

section \<open>The parsers and the random generator\<close>

text \<open>A segment without its identifier, and the local variables of a parser without the
  identifiers and the generator.\<close>

definition withoutId :: "ParsedSegment \<Rightarrow> ParsedSegment" where
  "withoutId s = s\<lparr>segId := []\<rparr>"

definition viewNovelAI :: "naiState \<Rightarrow> ParsedSegment list \<times> int \<times> int \<times> jsnum \<times> string" where
  "viewNovelAI st =
     (map withoutId (segments st), curlyDepth st, squareDepth st, activeBaseWeight st, buffer st)"

definition viewPixAI :: "pixState \<Rightarrow> ParsedSegment list \<times> int \<times> int \<times> string" where
  "viewPixAI st = (map withoutId (segmentsP st), parenDepth st, squareDepthP st, bufferP st)"

lemma view_flushNovelAI:
  "viewNovelAI st = viewNovelAI st' \<Longrightarrow> viewNovelAI (flushNovelAI st) = viewNovelAI (flushNovelAI st')"
  by (simp add: viewNovelAI_def flushNovelAI_segments finalWeightNovelAI_def withoutId_def)

lemma view_weightControl:
  "viewNovelAI st = viewNovelAI st' \<Longrightarrow>
   viewNovelAI (weightControl numStr st) = viewNovelAI (weightControl numStr st')"
  by (simp add: viewNovelAI_def weightControl_def Let_def)

lemma view_charNovelAI:
  "viewNovelAI st = viewNovelAI st' \<Longrightarrow> viewNovelAI (charNovelAI c st) = viewNovelAI (charNovelAI c st')"
  using view_flushNovelAI [of st st']
  by (simp add: viewNovelAI_def charNovelAI_def Let_def)

lemma view_naiLoop:
  "viewNovelAI st = viewNovelAI st' \<Longrightarrow> viewNovelAI (naiLoop t st) = viewNovelAI (naiLoop t st')"
proof (induction t st arbitrary: st' rule: naiLoop.induct)
  case (1 st)
  then show ?case by simp
next
  case (2 c cs st)
  show ?case
  proof (cases "matchWeightControl (c # cs)")
    case None
    then show ?thesis
      using "2.IH"(1) [OF None view_charNovelAI [OF "2.prems"]] by simp
  next
    case (Some a)
    obtain numStr rest where "a = (numStr, rest)" by (cases a)
    with Some have m: "matchWeightControl (c # cs) = Some (numStr, rest)" by simp
    have "viewNovelAI (naiLoop rest (weightControl numStr (flushNovelAI st))) =
          viewNovelAI (naiLoop rest (weightControl numStr (flushNovelAI st')))"
      by (rule "2.IH"(2) [OF m refl]) (intro view_weightControl view_flushNovelAI "2.prems")
    then show ?thesis using m by simp
  qed
qed

lemma view_flushPixAI:
  "viewPixAI st = viewPixAI st' \<Longrightarrow> viewPixAI (flushPixAI st) = viewPixAI (flushPixAI st')"
  by (simp add: viewPixAI_def flushPixAI_segments finalWeightPixAI_def withoutId_def)

lemma view_explicitWeight:
  "viewPixAI st = viewPixAI st' \<Longrightarrow>
   viewPixAI (explicitWeight m numStr st) = viewPixAI (explicitWeight m numStr st')"
  using view_flushPixAI [of st st']
  by (simp add: viewPixAI_def explicitWeight_segments withoutId_def)

lemma view_charPixAI:
  "viewPixAI st = viewPixAI st' \<Longrightarrow> viewPixAI (charPixAI c st) = viewPixAI (charPixAI c st')"
  using view_flushPixAI [of st st']
  by (simp add: viewPixAI_def charPixAI_def Let_def)

lemma view_escape:
  "viewPixAI st = viewPixAI st' \<Longrightarrow>
   viewPixAI (st\<lparr>bufferP := bufferP st @ [c, d]\<rparr>) = viewPixAI (st'\<lparr>bufferP := bufferP st' @ [c, d]\<rparr>)"
  by (simp add: viewPixAI_def)

lemma view_pixLoop:
  "viewPixAI st = viewPixAI st' \<Longrightarrow> viewPixAI (pixLoop t st) = viewPixAI (pixLoop t st')"
proof (induction t st arbitrary: st' rule: pixLoop.induct)
  case (1 st)
  then show ?case by simp
next
  case (2 c st)
  show ?case
  proof (cases "if c = CHR ''('' then matchExplicitWeight [c] else None")
    case None
    then show ?thesis using view_charPixAI [OF "2.prems"] by simp
  next
    case (Some a)
    obtain m numStr rest where "a = (m, numStr, rest)" by (cases a)
    with Some have m:
      "(if c = CHR ''('' then matchExplicitWeight [c] else None) = Some (m, numStr, rest)"
      by simp
    have "viewPixAI (pixLoop rest (explicitWeight m numStr st)) =
          viewPixAI (pixLoop rest (explicitWeight m numStr st'))"
      by (rule "2.IH" [OF m refl refl]) (intro view_explicitWeight "2.prems")
    then show ?thesis using m by simp
  qed
next
  case (3 c d cs st)
  show ?case
  proof (cases "c = CHR 0x5C")
    case True
    then show ?thesis
      using "3.IH"(1) [OF True view_escape [OF "3.prems"]] by simp
  next
    case False
    show ?thesis
    proof (cases "if c = CHR ''('' then matchExplicitWeight (c # d # cs) else None")
      case None
      then show ?thesis
        using "3.IH"(2) [OF False None view_charPixAI [OF "3.prems"]] False by simp
    next
      case (Some a)
      obtain m numStr rest where "a = (m, numStr, rest)" by (cases a)
      with Some have m:
        "(if c = CHR ''('' then matchExplicitWeight (c # d # cs) else None) =
         Some (m, numStr, rest)"
        by simp
      have "viewPixAI (pixLoop rest (explicitWeight m numStr st)) =
            viewPixAI (pixLoop rest (explicitWeight m numStr st'))"
        by (rule "3.IH"(3) [OF False m refl refl]) (intro view_explicitWeight "3.prems")
      then show ?thesis using m False by simp
    qed
  qed
qed

subsection \<open>The identifiers drawn\<close>

text \<open>
  The segments so far carry the first values of the generator \<open>g\<close> the call started with,
  one each and in order, and the generator has been advanced by their number.
\<close>

definition drawnFrom :: "rng \<Rightarrow> ParsedSegment list \<Rightarrow> rng \<Rightarrow> bool" where
  "drawnFrom g segs g' =
     (map segId segs = map g [0..<length segs] \<and> g' = (\<lambda>i. g (i + length segs)))"

lemma drawnFrom_snoc:
  assumes "drawnFrom g segs g'"
  shows "drawnFrom g (segs @ [seg\<lparr>segId := g' 0\<rparr>]) (\<lambda>n. g' (Suc n))"
  using assms by (auto simp: drawnFrom_def)

lemma flushNovelAI_random:
  "random (flushNovelAI st) =
     (if trim (buffer st) = [] then random st else (\<lambda>n. random st (Suc n)))"
  by (simp add: flushNovelAI_def generateId_def Let_def)

lemma flushPixAI_random:
  "randomP (flushPixAI st) =
     (if trim (bufferP st) = [] then randomP st else (\<lambda>n. randomP st (Suc n)))"
  by (simp add: flushPixAI_def generateId_def Let_def)

lemma explicitWeight_random:
  "randomP (explicitWeight m numStr st) = (\<lambda>n. randomP (flushPixAI st) (Suc n))"
  by (simp add: explicitWeight_def generateId_def Let_def)

lemma drawn_flushNovelAI:
  assumes "drawnFrom g (segments st) (random st)"
  shows "drawnFrom g (segments (flushNovelAI st)) (random (flushNovelAI st))"
proof (cases "trim (buffer st) = []")
  case True
  then show ?thesis using assms by (simp add: flushNovelAI_segments flushNovelAI_random)
next
  case False
  let ?seg = "\<lparr>segId = [], segType = (if finalWeightNovelAI st = Num 1 then TextSeg else WeightSeg),
      raw = trim (buffer st), content = Some (trim (buffer st)),
      weight = Some (finalWeightNovelAI st)\<rparr>"
  from drawnFrom_snoc [OF assms, of ?seg] False show ?thesis
    by (simp add: flushNovelAI_segments flushNovelAI_random)
qed

lemma drawn_charNovelAI:
  assumes "drawnFrom g (segments st) (random st)"
  shows "drawnFrom g (segments (charNovelAI c st)) (random (charNovelAI c st))"
  using assms drawn_flushNovelAI [OF assms] by (simp add: charNovelAI_def Let_def)

lemma drawn_naiLoop:
  "drawnFrom g (segments st) (random st) \<Longrightarrow>
   drawnFrom g (segments (naiLoop t st)) (random (naiLoop t st))"
proof (induction t st rule: naiLoop.induct)
  case (1 st)
  then show ?case by simp
next
  case (2 c cs st)
  show ?case
  proof (cases "matchWeightControl (c # cs)")
    case None
    then show ?thesis
      using "2.IH"(1) [OF None drawn_charNovelAI [OF "2.prems"]] by simp
  next
    case (Some a)
    obtain numStr rest where "a = (numStr, rest)" by (cases a)
    with Some have m: "matchWeightControl (c # cs) = Some (numStr, rest)" by simp
    have "drawnFrom g (segments (weightControl numStr (flushNovelAI st)))
        (random (weightControl numStr (flushNovelAI st)))"
      using drawn_flushNovelAI [OF "2.prems"] by simp
    then show ?thesis using "2.IH"(2) [OF m refl] m by simp
  qed
qed

lemma parseNovelAI_draws:
  "drawnFrom g (fst (parseNovelAI g text)) (snd (parseNovelAI g text))"
proof (cases "text = []")
  case True
  then show ?thesis by (simp add: parseNovelAI_def drawnFrom_def)
next
  case False
  have "drawnFrom g (segments (initNovelAI g)) (random (initNovelAI g))"
    by (simp add: initNovelAI_def drawnFrom_def)
  then have "drawnFrom g (segments (runNovelAI g text)) (random (runNovelAI g text))"
    unfolding runNovelAI_def by (intro drawn_flushNovelAI drawn_naiLoop)
  then show ?thesis using False by (simp add: parseNovelAI_def)
qed

lemma drawn_flushPixAI:
  assumes "drawnFrom g (segmentsP st) (randomP st)"
  shows "drawnFrom g (segmentsP (flushPixAI st)) (randomP (flushPixAI st))"
proof (cases "trim (bufferP st) = []")
  case True
  then show ?thesis using assms by (simp add: flushPixAI_segments flushPixAI_random)
next
  case False
  let ?seg = "\<lparr>segId = [], segType = (if finalWeightPixAI st = Num 1 then TextSeg else WeightSeg),
      raw = trim (bufferP st), content = Some (unescapePixAI (trim (bufferP st))),
      weight = Some (finalWeightPixAI st)\<rparr>"
  from drawnFrom_snoc [OF assms, of ?seg] False show ?thesis
    by (simp add: flushPixAI_segments flushPixAI_random)
qed

lemma drawn_explicitWeight:
  assumes "drawnFrom g (segmentsP st) (randomP st)"
  shows "drawnFrom g (segmentsP (explicitWeight m numStr st))
           (randomP (explicitWeight m numStr st))"
proof -
  let ?seg = "\<lparr>segId = [], segType = WeightSeg, raw = wholeMatch m numStr,
      content = Some (unescapePixAI (trim m)), weight = Some (parseFloat numStr)\<rparr>"
  from drawnFrom_snoc [OF drawn_flushPixAI [OF assms], of ?seg] show ?thesis
    by (simp add: explicitWeight_segments explicitWeight_random)
qed

lemma drawn_charPixAI:
  assumes "drawnFrom g (segmentsP st) (randomP st)"
  shows "drawnFrom g (segmentsP (charPixAI c st)) (randomP (charPixAI c st))"
  using assms drawn_flushPixAI [OF assms] by (simp add: charPixAI_def Let_def)

lemma drawn_pixLoop:
  "drawnFrom g (segmentsP st) (randomP st) \<Longrightarrow>
   drawnFrom g (segmentsP (pixLoop t st)) (randomP (pixLoop t st))"
proof (induction t st rule: pixLoop.induct)
  case (1 st)
  then show ?case by simp
next
  case (2 c st)
  show ?case
  proof (cases "if c = CHR ''('' then matchExplicitWeight [c] else None")
    case None
    then show ?thesis using drawn_charPixAI [OF "2.prems"] by simp
  next
    case (Some a)
    obtain m numStr rest where "a = (m, numStr, rest)" by (cases a)
    with Some have m:
      "(if c = CHR ''('' then matchExplicitWeight [c] else None) = Some (m, numStr, rest)"
      by simp
    show ?thesis
      using "2.IH" [OF m refl refl drawn_explicitWeight [OF "2.prems"]] m by simp
  qed
next
  case (3 c d cs st)
  show ?case
  proof (cases "c = CHR 0x5C")
    case True
    have "drawnFrom g (segmentsP (st\<lparr>bufferP := bufferP st @ [c, d]\<rparr>))
        (randomP (st\<lparr>bufferP := bufferP st @ [c, d]\<rparr>))"
      using "3.prems" by simp
    then show ?thesis using "3.IH"(1) [OF True] True by simp
  next
    case False
    show ?thesis
    proof (cases "if c = CHR ''('' then matchExplicitWeight (c # d # cs) else None")
      case None
      then show ?thesis
        using "3.IH"(2) [OF False None drawn_charPixAI [OF "3.prems"]] False by simp
    next
      case (Some a)
      obtain m numStr rest where "a = (m, numStr, rest)" by (cases a)
      with Some have m:
        "(if c = CHR ''('' then matchExplicitWeight (c # d # cs) else None) =
         Some (m, numStr, rest)"
        by simp
      show ?thesis
        using "3.IH"(3) [OF False m refl refl drawn_explicitWeight [OF "3.prems"]] m False
        by simp
    qed
  qed
qed

lemma parsePixAI_draws:
  "drawnFrom g (fst (parsePixAI g text)) (snd (parsePixAI g text))"
proof (cases "text = []")
  case True
  then show ?thesis by (simp add: parsePixAI_def drawnFrom_def)
next
  case False
  have "drawnFrom g (segmentsP (initPixAI g)) (randomP (initPixAI g))"
    by (simp add: initPixAI_def drawnFrom_def)
  then have "drawnFrom g (segmentsP (runPixAI g text)) (randomP (runPixAI g text))"
    unfolding runPixAI_def by (intro drawn_flushPixAI drawn_pixLoop)
  then show ?thesis using False by (simp add: parsePixAI_def)
qed

section \<open>Printing a weight and reading it back\<close>

lemma digitChar_digit:
  assumes "d < 10"
  shows "isDigit (digitChar d)" "digitVal (digitChar d) = d"
proof -
  from assms have "d \<in> {0, 1, 2, 3, 4, 5, 6, 7, 8, 9}" by auto
  then show "isDigit (digitChar d)" "digitVal (digitChar d) = d"
    by (auto simp: digitChar_def isDigit_def digitVal_def)
qed

lemma natDigits_digits: "list_all isDigit (natDigits n)"
proof (induction n rule: less_induct)
  case (less n)
  show ?case
  proof (cases "n = 0")
    case True
    then show ?thesis by (simp add: natDigits_0)
  next
    case False
    then have "list_all isDigit (natDigits (n div 10))" by (intro less.IH) simp
    then show ?thesis using False by (simp add: natDigits_pos digitChar_digit)
  qed
qed

lemma digitsVal_natDigits: "digitsVal (natDigits n) = n"
proof (induction n rule: less_induct)
  case (less n)
  show ?case
  proof (cases "n = 0")
    case True
    then show ?thesis by (simp add: natDigits_0 digitsVal_Nil)
  next
    case False
    then have "digitsVal (natDigits (n div 10)) = n div 10" by (intro less.IH) simp
    then show ?thesis using False by (simp add: natDigits_pos digitsVal_snoc digitChar_digit)
  qed
qed

lemma natDigits_nonempty: "0 < n \<Longrightarrow> natDigits n \<noteq> []"
  by (simp add: natDigits_pos)

lemma digitsVal_append: "digitsVal (xs @ ys) = digitsVal xs * 10 ^ length ys + digitsVal ys"
proof (induction ys rule: rev_induct)
  case Nil
  then show ?case by (simp add: digitsVal_Nil)
next
  case (snoc y ys)
  have "digitsVal (xs @ ys @ [y]) = 10 * digitsVal (xs @ ys) + digitVal y"
    using digitsVal_snoc [of "xs @ ys" y] by simp
  then show ?case by (simp add: snoc digitsVal_snoc algebra_simps)
qed

lemma digitsVal_Cons: "digitsVal (c # ds) = digitVal c * 10 ^ length ds + digitsVal ds"
  using digitsVal_append [of "[c]" ds] by (simp add: digitsVal_def)

text \<open>The digits printed for the whole part of a number.\<close>

definition wholeDigits :: "nat \<Rightarrow> string" where
  "wholeDigits q = (if q = 0 then ''0'' else natDigits q)"

lemma wholeDigits_props:
  "list_all isDigit (wholeDigits q)" "wholeDigits q \<noteq> []" "digitsVal (wholeDigits q) = q"
proof -
  have z: "isDigit (CHR ''0'')" "digitsVal ''0'' = 0"
    by (simp_all add: isDigit_def digitsVal_def digitVal_def)
  show "list_all isDigit (wholeDigits q)"
    using z by (simp add: wholeDigits_def natDigits_digits)
  show "wholeDigits q \<noteq> []"
    by (simp add: wholeDigits_def natDigits_nonempty)
  show "digitsVal (wholeDigits q) = q"
    using z by (simp add: wholeDigits_def digitsVal_natDigits)
qed

text \<open>A rational that is an integer.\<close>

definition isInt :: "rat \<Rightarrow> bool" where
  "isInt x = (of_int \<lfloor>x\<rfloor> = x)"

lemma isInt_of_int [simp]: "isInt (of_int n)"
  by (simp add: isInt_def)

lemma isInt_of_nat [simp]: "isInt (of_nat n)"
  using isInt_of_int [of "int n"] by simp

lemma isInt_obtain: "isInt x \<Longrightarrow> \<exists>n. x = of_int n"
  unfolding isInt_def by metis

lemma isInt_diff: "isInt x \<Longrightarrow> isInt y \<Longrightarrow> isInt (x - y)"
  by (metis isInt_obtain isInt_of_int of_int_diff)

lemma isInt_add: "isInt x \<Longrightarrow> isInt y \<Longrightarrow> isInt (x + y)"
  by (metis isInt_obtain isInt_of_int of_int_add)

lemma isInt_mult: "isInt x \<Longrightarrow> isInt y \<Longrightarrow> isInt (x * y)"
  by (metis isInt_obtain isInt_of_int of_int_mult)

lemma isInt_power10 [simp]: "isInt (10 ^ n)"
  using isInt_of_int [of "10 ^ n"] by simp

lemma isInt_unit: "isInt x \<Longrightarrow> 0 \<le> x \<Longrightarrow> x < 1 \<Longrightarrow> x = 0"
proof -
  assume i: "isInt x" and x: "0 \<le> x" "x < 1"
  have "\<lfloor>x\<rfloor> = 0" using x by (intro floor_unique) simp_all
  with i show ?thesis by (simp add: isInt_def)
qed

lemma fracDigits_zero: "fracDigits n 0 = []"
  by (cases n) simp_all

text \<open>
  A number below 1 with at most \<open>m\<close> decimal places is printed digit for digit when the
  fuel is at least \<open>m\<close>.
\<close>

lemma fracDigits_decimal:
  assumes "0 \<le> f" "f < 1" "isInt (f * 10 ^ m)" "m \<le> n"
  shows "list_all isDigit (fracDigits n f) \<and>
         of_nat (digitsVal (fracDigits n f)) / 10 ^ length (fracDigits n f) = f \<and>
         (f \<noteq> 0 \<longrightarrow> fracDigits n f \<noteq> [])"
  using assms
proof (induction n arbitrary: f m)
  case 0
  then have "isInt f" by simp
  then have "f = 0" using "0.prems"(1,2) by (rule isInt_unit)
  then show ?case by (simp add: digitsVal_Nil)
next
  case (Suc n)
  show ?case
  proof (cases "f = 0")
    case True
    then show ?thesis by (simp add: digitsVal_Nil)
  next
    case False
    define d where "d = \<lfloor>10 * f\<rfloor>"
    define f' where "f' = 10 * f - of_int d"
    have d: "0 \<le> d" "d \<le> 9"
      using Suc.prems(1,2) unfolding d_def by (simp_all add: floor_le_iff le_floor_iff)
    have f': "0 \<le> f'" "f' < 1" unfolding f'_def d_def by linarith+
    have m0: "m \<noteq> 0"
    proof
      assume "m = 0"
      with Suc.prems(3) have "isInt f" by simp
      then have "f = 0" using Suc.prems(1,2) by (rule isInt_unit)
      then show False using False by simp
    qed
    then obtain m' where m: "m = Suc m'" by (cases m) simp_all
    have "f' * 10 ^ m' = f * 10 ^ m - of_int d * 10 ^ m'"
      by (simp add: f'_def m algebra_simps)
    moreover have "isInt (f * 10 ^ m - of_int d * 10 ^ m')"
      using Suc.prems(3) by (intro isInt_diff) (simp_all add: isInt_mult)
    ultimately have "isInt (f' * 10 ^ m')" by simp
    from Suc.IH [OF f' this] Suc.prems(4) m
    have IH: "list_all isDigit (fracDigits n f')"
      "of_nat (digitsVal (fracDigits n f')) / 10 ^ length (fracDigits n f') = f'"
      by simp_all
    have nd: "nat d < 10" using d by simp
    have step: "fracDigits (Suc n) f = digitChar (nat d) # fracDigits n f'"
      using False by (simp add: d_def f'_def)
    have "of_nat (digitsVal (digitChar (nat d) # fracDigits n f')) /
            10 ^ length (digitChar (nat d) # fracDigits n f') =
          (of_int d * 10 ^ length (fracDigits n f') + of_nat (digitsVal (fracDigits n f'))) /
            (10 * 10 ^ length (fracDigits n f'))"
      using d(1) by (simp add: digitsVal_Cons digitChar_digit [OF nd])
    also have "\<dots> = (of_int d + f') / 10"
      using IH(2) by (simp add: field_simps)
    also have "\<dots> = f" by (simp add: f'_def)
    finally have v: "of_nat (digitsVal (digitChar (nat d) # fracDigits n f')) /
            10 ^ length (digitChar (nat d) # fracDigits n f') = f" .
    show ?thesis
      unfolding step using v IH(1) digitChar_digit(1) [OF nd] by simp
  qed
qed

text \<open>A positive decimal with at most 1100 places is printed digit for digit.\<close>

lemma plainDecimal_shape:
  assumes "0 < v" "isInt (v * 10 ^ m)" "m \<le> 1100"
  shows "\<exists>ip fd. plainDecimal v = numeral_shape ip fd \<and> list_all isDigit ip \<and> ip \<noteq> [] \<and>
           list_all isDigit fd \<and> decimalValue ip fd = v"
proof -
  define q where "q = nat \<lfloor>v\<rfloor>"
  define f where "f = fracPart v"
  have q: "of_nat q = (of_int \<lfloor>v\<rfloor> :: rat)" using assms(1) by (simp add: q_def)
  have f: "0 \<le> f" "f < 1" unfolding f_def fracPart_def by linarith+
  have "f * 10 ^ m = v * 10 ^ m - of_int \<lfloor>v\<rfloor> * 10 ^ m"
    by (simp add: f_def fracPart_def algebra_simps)
  moreover have "isInt (v * 10 ^ m - of_int \<lfloor>v\<rfloor> * 10 ^ m)"
    using assms(2) by (intro isInt_diff) (simp_all add: isInt_mult)
  ultimately have "isInt (f * 10 ^ m)" by simp
  from fracDigits_decimal [OF f this assms(3)]
  have fd: "list_all isDigit (fracDigits 1100 f)"
    "of_nat (digitsVal (fracDigits 1100 f)) / 10 ^ length (fracDigits 1100 f) = f"
    "f \<noteq> 0 \<Longrightarrow> fracDigits 1100 f \<noteq> []"
    by simp_all
  have e: "(fracDigits 1100 f = []) = (f = 0)"
    using fd(3) by (auto simp: fracDigits_zero)
  have "0 \<le> \<lfloor>v\<rfloor>" using assms(1) by simp
  then have q0: "(\<lfloor>v\<rfloor> = 0) = (q = 0)" unfolding q_def by linarith
  have "plainDecimal v =
      (if q = 0 then ''0'' else natDigits q) @
      (if f = 0 then [] else CHR ''.'' # fracDigits 1100 f)"
    by (simp only: plainDecimal_def q0 flip: f_def q_def)
  then have p: "plainDecimal v = numeral_shape (wholeDigits q) (fracDigits 1100 f)"
    by (simp add: numeral_shape_def wholeDigits_def e)
  have "decimalValue (wholeDigits q) (fracDigits 1100 f) =
      of_nat q + of_nat (digitsVal (fracDigits 1100 f)) / 10 ^ length (fracDigits 1100 f)"
    by (simp add: decimalValue_def digitsVal_append wholeDigits_props add_divide_distrib)
  also have "\<dots> = of_int \<lfloor>v\<rfloor> + f" by (simp only: fd(2) q)
  also have "\<dots> = v" by (simp add: f_def fracPart_def)
  finally have "decimalValue (wholeDigits q) (fracDigits 1100 f) = v" .
  then show ?thesis
    using p fd(1) wholeDigits_props(1,2) by blast
qed

subsection \<open>The shortest decimal of a double\<close>

lemma digitChar_not_zero: "0 < d \<Longrightarrow> d < 10 \<Longrightarrow> digitChar d \<noteq> CHR ''0''"
proof -
  assume "0 < d" "d < 10"
  then have "d \<in> {1, 2, 3, 4, 5, 6, 7, 8, 9}" by auto
  then show ?thesis by (auto simp: digitChar_def)
qed

lemma leading_zeros:
  "0 < x \<Longrightarrow> x < 1 \<Longrightarrow> 1 / 10 ^ j \<le> x \<Longrightarrow> j \<le> n \<Longrightarrow>
   length (takeWhile (\<lambda>c. c = CHR ''0'') (fracDigits n x)) < j"
proof (induction j arbitrary: n x)
  case 0
  then show ?case by simp
next
  case (Suc j)
  from Suc.prems(4) obtain n' where n: "n = Suc n'" by (cases n) simp_all
  define d where "d = \<lfloor>10 * x\<rfloor>"
  have d: "0 \<le> d" "d \<le> 9"
    using Suc.prems(1,2) unfolding d_def by (simp_all add: floor_le_iff le_floor_iff)
  have step: "fracDigits n x = digitChar (nat d) # fracDigits n' (10 * x - of_int d)"
    using Suc.prems(1) by (simp add: n d_def)
  show ?case
  proof (cases "d = 0")
    case True
    have "10 * x < 1" using True unfolding d_def by (simp add: floor_eq_iff)
    moreover have "1 / 10 ^ j \<le> 10 * x" using Suc.prems(3) by (simp add: field_simps)
    moreover have "0 < 10 * x" using Suc.prems(1) by simp
    ultimately have "length (takeWhile (\<lambda>c. c = CHR ''0'') (fracDigits n' (10 * x))) < j"
      using Suc.prems(4) n by (intro Suc.IH) simp_all
    then show ?thesis using True by (simp add: step digitChar_def)
  next
    case False
    then have "0 < nat d" "nat d < 10" using d by simp_all
    then have "digitChar (nat d) \<noteq> CHR ''0''" by (rule digitChar_not_zero)
    then show ?thesis by (simp add: step)
  qed
qed

lemma decimalExponent_ge:
  assumes "1 / 1000 \<le> r"
  shows "- 3 \<le> decimalExponent r"
proof (cases "1 \<le> r")
  case True
  then show ?thesis by (simp add: decimalExponent_def)
next
  case False
  have "1 / 10 ^ 3 \<le> r" using assms by simp
  moreover have "0 < r" using assms by linarith
  ultimately have "length (takeWhile (\<lambda>c. c = CHR ''0'') (fracDigits 1100 r)) < 3"
    using False by (intro leading_zeros) simp_all
  then show ?thesis using False by (simp add: decimalExponent_def)
qed

lemma digitsCandidate_Some:
  assumes "digitsCandidate r k = Some v"
  shows "fromRat v = Num r"
    and "\<exists>S. v = of_int S * power_int 10 (decimalExponent r + 1 - int k) \<and> (0 < r \<longrightarrow> 0 \<le> S)"
proof -
  define u :: rat where "u = power_int 10 (decimalExponent r + 1 - int k)"
  define S where "S = \<lfloor>r / u\<rfloor>"
  have u: "0 < u" by (simp add: u_def zero_less_power_int)
  have hi: "of_int S * u + u = of_int (S + 1) * u" by (simp add: algebra_simps)
  from assms have c: "(v = of_int S * u \<or> v = of_int S * u + u) \<and> fromRat v = Num r"
    unfolding digitsCandidate_def Let_def u_def [symmetric] S_def [symmetric]
    by (auto split: if_splits)
  then show "fromRat v = Num r" by simp
  have "0 < r \<Longrightarrow> 0 \<le> S" using u unfolding S_def by simp
  with c hi show "\<exists>S. v = of_int S * power_int 10 (decimalExponent r + 1 - int k) \<and>
      (0 < r \<longrightarrow> 0 \<le> S)"
    unfolding u_def [symmetric] by (metis add_increasing2 zero_le_one)
qed

lemma shortestFrom_cases:
  "shortestFrom n k r = r \<or>
   (\<exists>j. k \<le> j \<and> j < k + n \<and> digitsCandidate r j = Some (shortestFrom n k r))"
proof (induction n arbitrary: k)
  case 0
  then show ?case by simp
next
  case (Suc n)
  show ?case
  proof (cases "digitsCandidate r k")
    case None
    with Suc [of "Suc k"] show ?thesis by (auto intro: exI [of _ "Suc k"])+
  next
    case (Some v)
    then show ?thesis by (auto intro: exI [of _ k])
  qed
qed

lemma roundTo_ge_1e21:
  assumes "10 ^ 21 \<le> v"
  shows "10 ^ 21 \<le> roundTo v"
proof (cases "power_int 2 70 \<le> v")
  case True
  then have "power_int 2 70 \<le> roundTo v" by (rule roundTo_ge_pow2) simp
  moreover have "(10::rat) ^ 21 \<le> power_int 2 70" by simp
  ultimately show ?thesis by linarith
next
  case False
  have "power_int 2 69 \<le> (10::rat) ^ 21" by simp
  then have "power_int 2 69 \<le> \<bar>v\<bar>" "\<bar>v\<bar> < power_int 2 (69 + 1)"
    using assms False by simp_all
  then have "binaryExponent v = 69" by (rule binaryExponent_unique)
  then have Q: "quantum v = 2 ^ 17" by (simp add: quantum_def)
  have "of_int 7629394531250000 \<le> v / quantum v"
    using assms unfolding Q by (simp add: field_simps)
  then have "7629394531250000 \<le> roundEven (v / quantum v)" by (rule roundEven_ge)
  then have "(of_int 7629394531250000 :: rat) \<le> of_int (roundEven (v / quantum v))"
    by (simp only: of_int_le_iff)
  then have "of_int 7629394531250000 * 2 ^ 17 \<le> roundTo v"
    unfolding roundTo_def Q by (intro mult_right_mono) simp_all
  then show ?thesis by simp
qed

lemma isDouble_scaled:
  assumes "isDouble r" "power_int 2 (- 7) \<le> r"
  shows "isInt (r * 10 ^ 59)"
proof -
  define e where "e = binaryExponent r"
  have r0: "0 < r" using assms(2) pow2_pos [of "- 7"] by linarith
  have "power_int 2 (- 7) \<le> \<bar>r\<bar>" using assms(2) r0 by simp
  then have e: "- 7 \<le> e" unfolding e_def by (rule binaryExponent_ge)
  then have Q: "quantum r = power_int 2 (e - 52)" by (simp add: quantum_def e_def max_def)
  from assms(1) have "isInt (r / quantum r)" by (simp add: isDouble_def isInt_def)
  then obtain M where M: "r / quantum r = of_int M" using isInt_obtain by blast
  then have r: "r = of_int M * power_int 2 (e - 52)"
    unfolding Q by (simp add: field_simps)
  have "power_int (2::rat) (e - 52) * 2 ^ 59 = power_int 2 (e - 52) * power_int 2 59" by simp
  also have "\<dots> = power_int 2 (e - 52 + 59)" by (rule power_int_add [symmetric]) simp
  also have "\<dots> = power_int 2 (e + 7)"
    by (rule arg_cong [where f = "power_int 2"]) simp
  also have "\<dots> = of_int (2 ^ nat (e + 7))" using e by (intro pow2_nat) simp
  finally have p: "power_int (2::rat) (e - 52) * 2 ^ 59 = of_int (2 ^ nat (e + 7))" .
  have "(10::rat) ^ 59 = 2 ^ 59 * 5 ^ 59" by (simp only: power_mult_distrib [symmetric]) simp
  then have "r * 10 ^ 59 = of_int M * (power_int 2 (e - 52) * 2 ^ 59) * 5 ^ 59"
    by (simp add: r)
  also have "\<dots> = of_int (M * 2 ^ nat (e + 7) * 5 ^ 59)" by (simp only: p) simp
  finally show ?thesis by (simp only: isInt_of_int)
qed

lemma shortestDecimal_props:
  assumes d: "isDouble r" and lo: "power_int 2 (- 7) \<le> r" and hi: "r < 10 ^ 21"
  shows "fromRat (shortestDecimal r) = Num r"
    and "isInt (shortestDecimal r * 10 ^ 59)"
    and "1 / 10 ^ 6 \<le> shortestDecimal r"
    and "shortestDecimal r < 10 ^ 21"
proof -
  define v where "v = shortestDecimal r"
  have r0: "0 < r" using lo pow2_pos [of "- 7"] by linarith
  have p7: "power_int (2::rat) (- 7) = 1 / 128" "power_int (2::rat) (- 8) = 1 / 256"
    by (simp_all add: power_int_minus inverse_eq_divide)
  from shortestFrom_cases [of 17 1 r] consider "v = r"
    | j where "1 \<le> j" "j < 18" "digitsCandidate r j = Some v"
    unfolding v_def shortestDecimal_def by auto
  then have "fromRat v = Num r \<and> isInt (v * 10 ^ 59) \<and> 0 \<le> v"
  proof cases
    case 1
    then show ?thesis
      using isDouble_fromRat [OF d] isDouble_scaled [OF d lo] r0 by simp
  next
    case 2
    from digitsCandidate_Some [OF 2(3)] r0 obtain S where
      f: "fromRat v = Num r" and S: "v = of_int S * power_int 10 (decimalExponent r + 1 - int j)"
      "0 \<le> S"
      by blast
    define t where "t = decimalExponent r + 1 - int j"
    have "- 3 \<le> decimalExponent r" using lo p7(1) by (intro decimalExponent_ge) simp
    then have t: "0 \<le> t + 59" using 2(2) by (simp add: t_def)
    have "power_int (10::rat) t * 10 ^ 59 = power_int 10 t * power_int 10 59" by simp
    also have "\<dots> = power_int 10 (t + 59)" by (rule power_int_add [symmetric]) simp
    also have "\<dots> = of_int (10 ^ nat (t + 59))" using t by (simp add: power_int_def)
    finally have "v * 10 ^ 59 = of_int (S * 10 ^ nat (t + 59))"
      unfolding S(1) t_def [symmetric] by simp
    then have "isInt (v * 10 ^ 59)" by (simp only: isInt_of_int)
    moreover have "0 \<le> v" unfolding S(1) using S(2) by (simp add: zero_less_power_int)
    ultimately show ?thesis using f by simp
  qed
  then have f: "fromRat v = Num r" and i: "isInt (v * 10 ^ 59)" and v0: "0 \<le> v" by simp_all
  have t: "\<bar>v\<bar> < overflowThreshold"
    using f by (auto simp: fromRat_def abs_if split: if_splits)
  then have rt: "roundTo v = r" using f by (simp add: fromRat_roundTo)
  have l: "power_int 2 (- 8) \<le> v"
  proof (rule ccontr)
    assume "\<not> power_int 2 (- 8) \<le> v"
    then have "v \<le> power_int 2 (- 8)" by simp
    then have "roundTo v \<le> power_int 2 (- 8)" using v0 by (intro roundTo_le_pow2) simp_all
    then show False using rt lo p7 by simp
  qed
  have u: "v < 10 ^ 21"
  proof (rule ccontr)
    assume "\<not> v < 10 ^ 21"
    then have "10 ^ 21 \<le> roundTo v" by (intro roundTo_ge_1e21) simp
    then show False using rt hi by simp
  qed
  show "fromRat (shortestDecimal r) = Num r" using f by (simp add: v_def)
  show "isInt (shortestDecimal r * 10 ^ 59)" using i by (simp add: v_def)
  show "1 / 10 ^ 6 \<le> shortestDecimal r" using l p7(2) by (simp add: v_def)
  show "shortestDecimal r < 10 ^ 21" using u by (simp add: v_def)
qed

text \<open>
  A double from \<open>2^-7\<close> up and below \<open>10^21\<close> is printed as digits, with or without a
  point and more digits, and the printed text reads back as the double.
\<close>

lemma numToString_reads:
  assumes "isDouble r" "power_int 2 (- 7) \<le> r" "r < 10 ^ 21"
  shows "\<exists>ip fd. numToString (Num r) = numeral_shape ip fd \<and> list_all isDigit ip \<and> ip \<noteq> [] \<and>
           list_all isDigit fd \<and> parseFloat (numeral_shape ip fd) = Num r"
proof -
  define v where "v = shortestDecimal r"
  note p = shortestDecimal_props [OF assms, folded v_def]
  have r0: "0 < r" using assms(2) pow2_pos [of "- 7"] by linarith
  have v0: "0 < v" using p(3) by (simp add: field_simps) (linarith?)
  have "numToString (Num r) = plainDecimal v"
    using r0 p(3,4) by (simp add: posToString_def Let_def v_def [symmetric])
  moreover from plainDecimal_shape [OF v0 p(2)] obtain ip fd where
    s: "plainDecimal v = numeral_shape ip fd" "list_all isDigit ip" "ip \<noteq> []"
    "list_all isDigit fd" "decimalValue ip fd = v"
    by auto
  moreover have "numeral_shape ip fd \<noteq> []" using s(3) by (simp add: numeral_shape_def)
  then have "parseFloat (numeral_shape ip fd) = Num r"
    using s(2,4,5) p(1) by (simp add: parseFloat_shape)
  ultimately show ?thesis by auto
qed

section \<open>The round trip through Format B\<close>

text \<open>
  The segments on which the round trip through Format B is exact: a content that is not
  blank and has no comma, square bracket, colon or backslash, and a weight that is a
  positive number of whole hundredths below \<open>10^21\<close>. A weight of whole hundredths is the
  double nearest to a multiple of 1/100, as \<open>roundWeight\<close> returns it: rounding the weight
  to hundredths and to a double again gives the weight back.
\<close>

definition plainChar :: "char \<Rightarrow> bool" where
  "plainChar x = (x \<noteq> CHR '','' \<and> x \<noteq> CHR ''['' \<and> x \<noteq> CHR '']'' \<and> x \<noteq> CHR '':'' \<and> x \<noteq> CHR 0x5C)"

definition plainContent :: "string \<Rightarrow> bool" where
  "plainContent c = (trim c \<noteq> [] \<and> list_all plainChar c)"

definition roundTripWeight :: "jsnum \<Rightarrow> bool" where
  "roundTripWeight w =
     (case w of
        Num r \<Rightarrow> 0 < r \<and> r < 10 ^ 21 \<and> fromRat (of_int \<lfloor>r * 100 + 1 / 2\<rfloor> / 100) = Num r
      | _ \<Rightarrow> False)"

definition roundTripSegment :: "ParsedSegment \<Rightarrow> bool" where
  "roundTripSegment seg =
     ((case content seg of Some c \<Rightarrow> plainContent c | None \<Rightarrow> False) \<and>
      (case weight seg of Some w \<Rightarrow> roundTripWeight w | None \<Rightarrow> False))"

lemma roundTo_nonpos: "x \<le> 0 \<Longrightarrow> roundTo x \<le> 0"
  using roundTo_nonneg [of "- x"] by (simp add: roundTo_minus)

lemma roundTripWeight_double:
  assumes "roundTripWeight w"
  shows "\<exists>r. w = Num r \<and> isDouble r \<and> power_int 2 (- 7) \<le> r \<and> r < 10 ^ 21"
proof -
  from assms obtain r where w: "w = Num r" and r: "0 < r" "r < 10 ^ 21"
    and f: "fromRat (of_int \<lfloor>r * 100 + 1 / 2\<rfloor> / 100) = Num r"
    by (auto simp: roundTripWeight_def split: jsnum.splits)
  define x :: rat where "x = of_int \<lfloor>r * 100 + 1 / 2\<rfloor> / 100"
  have d: "isDouble r" using f by (rule fromRat_isDouble)
  have "\<bar>x\<bar> < overflowThreshold"
    using f unfolding x_def [symmetric] by (auto simp: fromRat_def abs_if split: if_splits)
  then have rt: "roundTo x = r" using f unfolding x_def [symmetric] by (simp add: fromRat_roundTo)
  have "0 < \<lfloor>r * 100 + 1 / 2\<rfloor>"
  proof (rule ccontr)
    assume "\<not> 0 < \<lfloor>r * 100 + 1 / 2\<rfloor>"
    then have "x \<le> 0" by (simp add: x_def divide_le_0_iff)
    then have "roundTo x \<le> 0" by (rule roundTo_nonpos)
    then show False using rt r(1) by simp
  qed
  then have "1 \<le> \<lfloor>r * 100 + 1 / 2\<rfloor>" by simp
  then have "(1::rat) \<le> of_int \<lfloor>r * 100 + 1 / 2\<rfloor>" by (simp only: of_int_1_le_iff)
  then have "1 / 100 \<le> x" by (simp add: x_def)
  moreover have "power_int (2::rat) (- 7) = 1 / 128"
    by (simp add: power_int_minus inverse_eq_divide)
  ultimately have "power_int 2 (- 7) \<le> x" by simp
  then have "power_int 2 (- 7) \<le> roundTo x" by (rule roundTo_ge_pow2) simp
  then show ?thesis using w d r(2) rt by simp
qed

lemma trim_empty_iff: "trim s = [] \<longleftrightarrow> list_all isSpace s"
proof
  assume "trim s = []"
  then have "\<forall>x \<in> set (dropWhile isSpace s). isSpace x"
    by (simp add: trim_def dropWhile_eq_Nil_conv)
  then have "dropWhile isSpace s = []"
    by (metis hd_dropWhile hd_in_set)
  then show "list_all isSpace s" by (simp add: dropWhile_eq_Nil_conv list_all_iff)
next
  assume "list_all isSpace s"
  then have d: "dropWhile isSpace s = []" by (simp add: dropWhile_eq_Nil_conv list_all_iff)
  show "trim s = []" by (simp only: trim_def d) simp
qed

lemma set_escapePixAI: "set c \<subseteq> set (escapePixAI c)"
  by (induction c) auto

lemma escapePixAI_empty: "escapePixAI c = [] \<longleftrightarrow> c = []"
  by (cases c) auto

lemma trim_buffer_content:
  assumes "plainContent c"
  shows "trim (b @ escapePixAI c) \<noteq> []"
proof -
  from assms have "\<not> list_all isSpace c" by (simp add: plainContent_def trim_empty_iff)
  then obtain x where "x \<in> set c" "\<not> isSpace x" by (auto simp: list_all_iff)
  then have "x \<in> set (b @ escapePixAI c)" using set_escapePixAI [of c] by auto
  with \<open>\<not> isSpace x\<close> show ?thesis by (auto simp: trim_empty_iff list_all_iff)
qed

subsection \<open>Scanning a rendered content\<close>

lemma pixLoop_plain:
  assumes "x \<noteq> CHR 0x5C" "x \<noteq> CHR ''(''" "x \<noteq> CHR '')''" "x \<noteq> CHR ''[''" "x \<noteq> CHR '']''"
    "x \<noteq> CHR '',''"
  shows "pixLoop (x # t) st = pixLoop t (st\<lparr>bufferP := bufferP st @ [x]\<rparr>)"
  using assms by (cases t) (simp_all add: charPixAI_def)

lemma pixLoop_comma: "pixLoop (CHR '','' # t) st = pixLoop t (flushPixAI st)"
  by (cases t) (simp_all add: charPixAI_def)

lemma pixLoop_content:
  "list_all plainChar c \<Longrightarrow>
   pixLoop (escapePixAI c @ t) st = pixLoop t (st\<lparr>bufferP := bufferP st @ escapePixAI c\<rparr>)"
proof (induction c arbitrary: st)
  case Nil
  then show ?case by simp
next
  case (Cons x c)
  show ?case
  proof (cases "x = CHR ''('' \<or> x = CHR '')''")
    case True
    then show ?thesis using Cons by auto
  next
    case False
    with Cons.prems have "pixLoop (x # escapePixAI c @ t) st =
        pixLoop (escapePixAI c @ t) (st\<lparr>bufferP := bufferP st @ [x]\<rparr>)"
      by (intro pixLoop_plain) (auto simp: plainChar_def)
    then show ?thesis using False Cons by simp
  qed
qed

lemma contentRun_plain:
  assumes "x \<noteq> CHR 0x5C" "x \<noteq> CHR '':''" "x \<noteq> CHR ''(''" "x \<noteq> CHR '')''" "t \<noteq> []"
  shows "contentRun (x # t) = (x # fst (contentRun t), snd (contentRun t))"
  using assms by (cases t) simp_all

lemma contentRun_content:
  "list_all plainChar c \<Longrightarrow>
   contentRun (escapePixAI c @ CHR '':'' # t) = (escapePixAI c, CHR '':'' # t)"
proof (induction c)
  case Nil
  then show ?case by (simp add: contentRun_colon)
next
  case (Cons x c)
  then have IH: "contentRun (escapePixAI c @ CHR '':'' # t) = (escapePixAI c, CHR '':'' # t)"
    by simp
  show ?case
  proof (cases "x = CHR ''('' \<or> x = CHR '')''")
    case True
    then show ?thesis using IH by (auto simp: isLineTerminator_def)
  next
    case False
    with Cons.prems have "contentRun (x # escapePixAI c @ CHR '':'' # t) =
        (x # fst (contentRun (escapePixAI c @ CHR '':'' # t)),
         snd (contentRun (escapePixAI c @ CHR '':'' # t)))"
      by (intro contentRun_plain) (auto simp: plainChar_def)
    then show ?thesis using False IH by simp
  qed
qed

lemma matchExplicitWeight_render:
  assumes c: "list_all plainChar c" "c \<noteq> []"
    and ip: "list_all isDigit ip" "ip \<noteq> []" and fd: "list_all isDigit fd"
  shows "matchExplicitWeight (''('' @ escapePixAI c @ '':'' @ numeral_shape ip fd @ '')'' @ t) =
           Some (escapePixAI c, numeral_shape ip fd, t)"
proof -
  define n where "n = numeral_shape ip fd"
  define fp where "fp = (if fd = [] then [] else CHR ''.'' # fd)"
  have n: "n = ip @ fp" by (simp add: n_def fp_def numeral_shape_def)
  have nd: "\<not> isDigit (CHR '')'')" "\<not> isDigit (CHR ''.'')" by (simp_all add: isDigit_def)
  have tw: "takeWhile isDigit (n @ CHR '')'' # t) = ip"
    and dw: "dropWhile isDigit (n @ CHR '')'' # t) = fp @ CHR '')'' # t"
    using takeWhile_digits_stop [OF ip(1) nd(1), of t]
      takeWhile_digits_stop [OF ip(1) nd(2), of "fd @ CHR '')'' # t"]
    by (simp_all add: n fp_def)
  have fr: "fraction (fp @ CHR '')'' # t) = (fp, CHR '')'' # t)"
    using takeWhile_digits_stop [OF fd nd(1), of t]
    by (simp add: fp_def fraction_def)
  have cr: "contentRun (escapePixAI c @ CHR '':'' # n @ CHR '')'' # t) =
      (escapePixAI c, CHR '':'' # n @ CHR '')'' # t)"
    using c(1) by (rule contentRun_content)
  have m: "escapePixAI c \<noteq> []" using c(2) by (simp add: escapePixAI_empty)
  have "matchExplicitWeight (''('' @ escapePixAI c @ '':'' @ n @ '')'' @ t) =
      Some (escapePixAI c, n, t)"
    using m ip(2) by (simp add: matchExplicitWeight_def cr tw dw fr n [symmetric])
  then show ?thesis by (simp add: n_def)
qed

subsection \<open>Scanning what \<open>segmentsToPixAI\<close> prints\<close>

text \<open>Outside every bracket, with nothing but white space in the buffer.\<close>

definition atRest :: "pixState \<Rightarrow> bool" where
  "atRest st = (parenDepth st = 0 \<and> squareDepthP st = 0 \<and> list_all isSpace (bufferP st))"

lemma ambient_weight_one:
  "parenDepth st = 0 \<Longrightarrow> squareDepthP st = 0 \<Longrightarrow> finalWeightPixAI st = Num 1"
  by (simp add: finalWeightPixAI_def num_ev)

lemma renderPixAI_scan:
  assumes seg: "roundTripSegment seg" and st: "atRest st"
  shows "\<exists>st'. pixLoop (renderPixAI seg @ t) st = pixLoop t st' \<and>
           parenDepth st' = 0 \<and> squareDepthP st' = 0 \<and>
           map weight (segmentsP (flushPixAI st')) = map weight (segmentsP st) @ [weight seg]"
proof -
  from seg obtain c w where c: "content seg = Some c" "plainContent c"
    and w: "weight seg = Some w" "roundTripWeight w"
    by (auto simp: roundTripSegment_def split: option.splits)
  from roundTripWeight_double [OF w(2)] obtain r where r: "w = Num r" "isDouble r"
    "power_int 2 (- 7) \<le> r" "r < 10 ^ 21"
    by blast
  have r0: "0 < r" using r(3) pow2_pos [of "- 7"] by linarith
  from c(2) have pc: "list_all plainChar c" and cne: "c \<noteq> []"
    by (auto simp: plainContent_def trim_def)
  from st have d: "parenDepth st = 0" "squareDepthP st = 0" and b: "trim (bufferP st) = []"
    by (simp_all add: atRest_def trim_empty_iff)
  have wo: "weightOrOne (weight seg) = w" using w(1) r(1) r0 by (simp add: weightOrOne_def)
  show ?thesis
  proof (cases "w = Num 1")
    case True
    let ?st' = "st\<lparr>bufferP := bufferP st @ escapePixAI c\<rparr>"
    have "renderPixAI seg = escapePixAI c" using True wo c(1) by (simp add: renderPixAI_def)
    then have "pixLoop (renderPixAI seg @ t) st = pixLoop t ?st'"
      using pc by (simp add: pixLoop_content)
    moreover have "map weight (segmentsP (flushPixAI ?st')) = map weight (segmentsP st) @ [weight seg]"
      using trim_buffer_content [OF c(2), of "bufferP st"] d True w(1)
      by (simp add: flushPixAI_segments ambient_weight_one)
    ultimately show ?thesis using d by (intro exI [of _ ?st']) simp
  next
    case False
    from numToString_reads [OF r(2,3,4)] obtain ip fd where
      ns: "numToString w = numeral_shape ip fd" and ip: "list_all isDigit ip" "ip \<noteq> []"
      and fd: "list_all isDigit fd" and pf: "parseFloat (numeral_shape ip fd) = w"
      unfolding r(1) by blast
    let ?n = "numeral_shape ip fd"
    let ?st' = "explicitWeight (escapePixAI c) ?n st"
    have rd: "renderPixAI seg = ''('' @ escapePixAI c @ '':'' @ ?n @ '')''"
      using False wo c(1) ns by (simp add: renderPixAI_def)
    have "matchExplicitWeight (''('' @ escapePixAI c @ '':'' @ ?n @ '')'' @ t) =
        Some (escapePixAI c, ?n, t)"
      using pc cne ip fd by (rule matchExplicitWeight_render)
    then have "pixLoop (CHR ''('' # escapePixAI c @ '':'' @ ?n @ '')'' @ t) st = pixLoop t ?st'"
      by (intro pixLoop_match) simp
    then have "pixLoop (renderPixAI seg @ t) st = pixLoop t ?st'"
      by (simp add: rd)
    moreover have "map weight (segmentsP (flushPixAI ?st')) = map weight (segmentsP st) @ [weight seg]"
      using b w(1)
      by (simp add: flushPixAI_segments explicitWeight_segments pf trim_def)
    ultimately show ?thesis using d by (intro exI [of _ ?st']) simp
  qed
qed

lemma join_scan:
  assumes "list_all roundTripSegment segs" "segs \<noteq> []" "atRest st"
  shows "map weight (segmentsP (flushPixAI (pixLoop (join '', '' (map renderPixAI segs)) st))) =
           map weight (segmentsP st) @ map weight segs"
  using assms
proof (induction segs arbitrary: st)
  case Nil
  then show ?case by simp
next
  case (Cons seg segs)
  show ?case
  proof (cases segs)
    case Nil
    from Cons.prems obtain st' where
      "pixLoop (renderPixAI seg @ []) st = pixLoop [] st'"
      "map weight (segmentsP (flushPixAI st')) = map weight (segmentsP st) @ [weight seg]"
      using renderPixAI_scan [of seg st "[]"] by auto
    then show ?thesis using Nil by simp
  next
    case (Cons seg2 more)
    let ?rest = "join '', '' (map renderPixAI segs)"
    from Cons.prems obtain st' where st':
      "pixLoop (renderPixAI seg @ '', '' @ ?rest) st = pixLoop ('', '' @ ?rest) st'"
      "parenDepth st' = 0" "squareDepthP st' = 0"
      "map weight (segmentsP (flushPixAI st')) = map weight (segmentsP st) @ [weight seg]"
      using renderPixAI_scan [of seg st "'', '' @ ?rest"] by auto
    let ?st2 = "(flushPixAI st')\<lparr>bufferP := '' ''\<rparr>"
    have "pixLoop (CHR '','' # CHR '' '' # ?rest) st' = pixLoop (CHR '' '' # ?rest) (flushPixAI st')"
      by (rule pixLoop_comma)
    also have "\<dots> = pixLoop ?rest ((flushPixAI st')\<lparr>bufferP := bufferP (flushPixAI st') @ '' ''\<rparr>)"
      by (rule pixLoop_plain) simp_all
    finally have "pixLoop ('', '' @ ?rest) st' = pixLoop ?rest ?st2"
      by simp
    moreover have "atRest ?st2" using st'(2,3) by (simp add: atRest_def isSpace_def)
    then have "map weight (segmentsP (flushPixAI (pixLoop ?rest ?st2))) =
        map weight (segmentsP ?st2) @ map weight segs"
      using Cons.prems Cons by (intro Cons.IH) simp_all
    ultimately show ?thesis
      using st'(1,4) Cons by simp
  qed
qed

lemma parsePixAI_run: "fst (parsePixAI g text) = segmentsP (runPixAI g text)"
  by (simp add: parsePixAI_def runPixAI_def initPixAI_def flushPixAI_def trim_def)

lemma roundTrip_hasContent: "roundTripSegment seg \<Longrightarrow> hasContent seg"
  by (auto simp: roundTripSegment_def hasContent_def plainContent_def trim_def
      split: option.splits)

text \<open>Two weights, both finite and at most 0.01 apart.\<close>

definition closeWeight :: "jsnum option \<Rightarrow> jsnum option \<Rightarrow> bool" where
  "closeWeight a b =
     (case (a, b) of (Some (Num x), Some (Num y)) \<Rightarrow> \<bar>x - y\<bar> \<le> 1 / 100 | _ \<Rightarrow> False)"

section \<open>A tag inside nested brackets of Format A\<close>

text \<open>
  A character of a plain tag: no digit, point or colon (so that no weight control token can
  start at it), no bracket and no comma. A closing bracket of Format A.
\<close>

definition tagChar :: "char \<Rightarrow> bool" where
  "tagChar x = (\<not> isDigit x \<and> x \<noteq> CHR ''.'' \<and> x \<noteq> CHR '':'' \<and> x \<noteq> CHR ''{'' \<and> x \<noteq> CHR ''}'' \<and>
     x \<noteq> CHR ''['' \<and> x \<noteq> CHR '']'' \<and> x \<noteq> CHR '','')"

definition closer :: "char \<Rightarrow> bool" where
  "closer x = (x = CHR ''}'' \<or> x = CHR '']'')"

lemma matchWeightControl_none:
  "\<not> isDigit x \<Longrightarrow> x \<noteq> CHR ''.'' \<Longrightarrow> x \<noteq> CHR '':'' \<Longrightarrow> matchWeightControl (x # t) = None"
  by (simp add: matchWeightControl_def fraction_def)

lemma flushNovelAI_empty: "buffer st = [] \<Longrightarrow> flushNovelAI st = st"
  by (simp add: flushNovelAI_def trim_def)

lemma naiLoop_tag:
  "list_all tagChar tag \<Longrightarrow> naiLoop (tag @ t) st = naiLoop t (st\<lparr>buffer := buffer st @ tag\<rparr>)"
proof (induction tag arbitrary: st)
  case Nil
  then show ?case by simp
next
  case (Cons x tag)
  then have x: "tagChar x" and tag: "list_all tagChar tag" by simp_all
  from x have "matchWeightControl (x # tag @ t) = None"
    by (intro matchWeightControl_none) (simp_all add: tagChar_def)
  moreover from x have "charNovelAI x st = st\<lparr>buffer := buffer st @ [x]\<rparr>"
    by (simp add: charNovelAI_def tagChar_def)
  ultimately show ?case using Cons.IH [OF tag] by simp
qed

lemma naiLoop_open_curly:
  "buffer st = [] \<Longrightarrow>
   naiLoop (replicate n (CHR ''{'') @ t) st = naiLoop t (st\<lparr>curlyDepth := curlyDepth st + int n\<rparr>)"
proof (induction n arbitrary: st)
  case 0
  then show ?case by simp
next
  case (Suc n)
  have "matchWeightControl (CHR ''{'' # replicate n (CHR ''{'') @ t) = None"
    by (intro matchWeightControl_none) (simp_all add: isDigit_def)
  moreover have "charNovelAI (CHR ''{'') st = st\<lparr>curlyDepth := curlyDepth st + 1\<rparr>"
    using Suc.prems by (simp add: charNovelAI_def flushNovelAI_empty)
  ultimately show ?case using Suc.prems by (simp add: Suc.IH add.commute add.left_commute)
qed

lemma naiLoop_open_square:
  "buffer st = [] \<Longrightarrow>
   naiLoop (replicate n (CHR ''['') @ t) st = naiLoop t (st\<lparr>squareDepth := squareDepth st + int n\<rparr>)"
proof (induction n arbitrary: st)
  case 0
  then show ?case by simp
next
  case (Suc n)
  have "matchWeightControl (CHR ''['' # replicate n (CHR ''['') @ t) = None"
    by (intro matchWeightControl_none) (simp_all add: isDigit_def)
  moreover have "charNovelAI (CHR ''['') st = st\<lparr>squareDepth := squareDepth st + 1\<rparr>"
    using Suc.prems by (simp add: charNovelAI_def flushNovelAI_empty)
  ultimately show ?case using Suc.prems by (simp add: Suc.IH add.commute add.left_commute)
qed

lemma naiLoop_closers:
  "list_all closer cl \<Longrightarrow>
   segments (flushNovelAI (naiLoop cl st)) = segments (flushNovelAI st)"
proof (induction cl arbitrary: st)
  case Nil
  then show ?case by simp
next
  case (Cons x cl)
  then have x: "closer x" and cl: "list_all closer cl" by simp_all
  from x have m: "matchWeightControl (x # cl) = None" by (auto simp: closer_def)
  from x obtain st' where st': "charNovelAI x st = st'" "buffer st' = []"
    "segments st' = segments (flushNovelAI st)"
    by (auto simp: closer_def charNovelAI_def Let_def)
  have "segments (flushNovelAI (naiLoop cl st')) = segments (flushNovelAI st')"
    using cl by (rule Cons.IH)
  then show ?case using m st' by (simp add: flushNovelAI_empty)
qed

lemma parseNovelAI_run: "fst (parseNovelAI g text) = segments (runNovelAI g text)"
  by (simp add: parseNovelAI_def runNovelAI_def initNovelAI_def flushNovelAI_def trim_def)

lemma parseNovelAI_nested_tag:
  assumes "list_all tagChar tag" "trim tag \<noteq> []" "list_all closer cl"
  shows "map weight (fst (parseNovelAI g
           (replicate n (CHR ''{'') @ replicate m (CHR ''['') @ tag @ cl))) =
         [Some (roundWeight (js_mul (js_mul (Num 1) (Math_pow (105 / 100) (int n)))
                                    (Math_pow (95 / 100) (int m))))]"
proof -
  let ?st = "\<lparr>segments = [], curlyDepth = int n, squareDepth = int m,
              activeBaseWeight = Num 1, buffer = tag, random = g\<rparr>"
  have "naiLoop (replicate n (CHR ''{'') @ replicate m (CHR ''['') @ tag @ cl) (initNovelAI g) =
      naiLoop cl ?st"
    using assms(1) by (simp add: initNovelAI_def naiLoop_open_curly naiLoop_open_square naiLoop_tag)
  then have "segments (runNovelAI g (replicate n (CHR ''{'') @ replicate m (CHR ''['') @ tag @ cl)) =
      segments (flushNovelAI ?st)"
    using assms(3) by (simp add: runNovelAI_def naiLoop_closers)
  then show ?thesis
    using assms(2) by (simp add: parseNovelAI_run flushNovelAI_segments finalWeightNovelAI_def)
qed

section \<open>The sign of the weights of Format A\<close>

text \<open>A number that the test \<open>x < 0\<close> refuses, and a segment whose weight is one.\<close>

definition notNegative :: "jsnum \<Rightarrow> bool" where
  "notNegative x = (\<not> js_lt0 x)"

definition notNegativeWeight :: "ParsedSegment \<Rightarrow> bool" where
  "notNegativeWeight seg = (case weight seg of Some x \<Rightarrow> notNegative x | None \<Rightarrow> True)"

lemma notNegative_fromRat: "0 \<le> r \<Longrightarrow> notNegative (fromRat r)"
proof -
  assume r: "0 \<le> r"
  then have "0 \<le> roundTo r" by (rule roundTo_nonneg)
  moreover have "\<not> r \<le> - overflowThreshold" using r threshold_facts(5) by linarith
  ultimately show ?thesis by (simp add: notNegative_def fromRat_def not_less)
qed

lemma notNegative_mul:
  assumes "notNegative x" "notNegative y"
  shows "notNegative (js_mul x y)"
proof (cases x)
  case (Num a)
  show ?thesis
  proof (cases y)
    case (Num b)
    from assms \<open>x = Num a\<close> Num have "0 \<le> a * b" by (simp add: notNegative_def)
    then show ?thesis using \<open>x = Num a\<close> Num by (simp add: notNegative_fromRat)
  qed (use assms \<open>x = Num a\<close> in \<open>auto simp: notNegative_def infOfSign_def\<close>)
next
  case PosInf
  then show ?thesis
    using assms by (cases y) (auto simp: notNegative_def infOfSign_def)
next
  case NegInf
  then show ?thesis using assms by (simp add: notNegative_def)
next
  case NaN
  then show ?thesis by (simp add: notNegative_def)
qed

lemma notNegative_pow: "0 < b \<Longrightarrow> notNegative (Math_pow b n)"
proof -
  assume b: "0 < b"
  then have n: "notNegative (fromRat b)" by (intro notNegative_fromRat) simp
  show ?thesis
  proof (cases "fromRat b")
    case (Num d)
    with n have "0 \<le> d" by (simp add: notNegative_def)
    then have "0 \<le> power_int d n" by simp
    then show ?thesis using Num by (simp add: Math_pow_def notNegative_fromRat)
  qed (use n in \<open>simp_all add: Math_pow_def\<close>)
qed

lemma notNegative_roundWeight:
  assumes "notNegative x"
  shows "notNegative (roundWeight x)"
proof -
  have h: "notNegative (Num 100)" by (simp add: notNegative_def)
  have m: "notNegative (js_mul x (Num 100))" using assms h by (rule notNegative_mul)
  show ?thesis
  proof (cases "js_mul x (Num 100)")
    case (Num a)
    with m have "0 \<le> a" by (simp add: notNegative_def)
    then have "0 \<le> (of_int \<lfloor>a + 1 / 2\<rfloor> :: rat) / 100" by simp
    then show ?thesis
      using Num by (simp add: roundWeight_def notNegative_fromRat)
  next
    case PosInf
    then show ?thesis by (simp add: roundWeight_def notNegative_def infOfSign_def)
  next
    case NegInf
    with m show ?thesis by (simp add: notNegative_def)
  next
    case NaN
    then show ?thesis by (simp add: roundWeight_def notNegative_def)
  qed
qed

lemma notNegative_parsed:
  assumes "matchWeightControl s = Some (numStr, rest)" "numStr \<noteq> []"
  shows "notNegative (parseFloat numStr)"
proof -
  from matchWeightControl_shape [OF assms(1)] obtain ip fd where
    d: "list_all isDigit ip" "list_all isDigit fd" and n: "numStr = numeral_shape ip fd"
    by blast
  have "parseFloat numStr = fromRat (decimalValue ip fd)"
    using assms(2) d n by (simp add: parseFloat_shape)
  then show ?thesis
    using decimalValue_bounds(1) [OF d] by (simp add: notNegative_fromRat)
qed

definition signNovelAI :: "naiState \<Rightarrow> bool" where
  "signNovelAI st =
     (notNegative (activeBaseWeight st) \<and> list_all notNegativeWeight (segments st))"

lemma sign_flushNovelAI: "signNovelAI st \<Longrightarrow> signNovelAI (flushNovelAI st)"
  by (auto simp: signNovelAI_def flushNovelAI_segments notNegativeWeight_def
      finalWeightNovelAI_def
      intro!: notNegative_roundWeight notNegative_mul notNegative_pow)

lemma sign_charNovelAI: "signNovelAI st \<Longrightarrow> signNovelAI (charNovelAI c st)"
  using sign_flushNovelAI [of st]
  by (auto simp: charNovelAI_def Let_def signNovelAI_def)

lemma sign_weightControl:
  assumes "signNovelAI st" "matchWeightControl s = Some (numStr, rest)"
  shows "signNovelAI (weightControl numStr st)"
  using assms notNegative_parsed [OF assms(2)]
  by (auto simp: signNovelAI_def weightControl_def Let_def notNegative_def)

lemma sign_naiLoop: "signNovelAI st \<Longrightarrow> signNovelAI (naiLoop t st)"
proof (induction t st rule: naiLoop.induct)
  case (1 st)
  then show ?case by simp
next
  case (2 c cs st)
  show ?case
  proof (cases "matchWeightControl (c # cs)")
    case None
    then show ?thesis
      using "2.IH"(1) [OF None sign_charNovelAI [OF "2.prems"]] by simp
  next
    case (Some a)
    obtain numStr rest where "a = (numStr, rest)" by (cases a)
    with Some have m: "matchWeightControl (c # cs) = Some (numStr, rest)" by simp
    have "signNovelAI (weightControl numStr (flushNovelAI st))"
      using sign_flushNovelAI [OF "2.prems"] m by (rule sign_weightControl)
    then show ?thesis using "2.IH"(2) [OF m refl] m by simp
  qed
qed

lemma parseNovelAI_notNegative: "list_all notNegativeWeight (fst (parseNovelAI g text))"
proof -
  have "signNovelAI (initNovelAI g)"
    by (simp add: signNovelAI_def initNovelAI_def notNegative_def)
  then have "signNovelAI (runNovelAI g text)"
    unfolding runNovelAI_def by (intro sign_flushNovelAI sign_naiLoop)
  then show ?thesis by (simp add: parseNovelAI_run signNovelAI_def)
qed

lemma convert_negative_output_empty:
  "resultNegativeText (fst (convert g NAI_TO_PIX sourceText sourceNegativeText)) = []"
proof -
  have "filter isNegative (fst (parseNovelAI g sourceText)) = []"
    using parseNovelAI_notNegative [of g sourceText]
    by (auto simp: filter_empty_conv list_all_iff isNegative_def notNegativeWeight_def
        notNegative_def split: option.splits)
  then show ?thesis
    by (cases "parseNovelAI g sourceText") (simp add: convert_def segmentsToPixAI_def)
qed

section \<open>The claims\<close>

text \<open>
  Claim C1. In the direction from Format B to Format A the negative field is scanned as
  Format B, every weight is replaced by (the weight, or 1 when unset) times -1, the positive
  list followed by the negated list is serialized by the Format A serializer, and positive
  \<open>good\<close> with negative \<open>bad\<close> gives \<open>good, -1::bad::\<close>. The program does
  not give that text. The segment of \<open>bad\<close> leaves the scanner with weight 1 and type
  \<open>text\<close>; the negation changes the weight to -1 and keeps the type, and the serializer
  prints a segment of type \<open>text\<close> without its weight. The result is \<open>good, bad\<close>.
  A negative tag with an explicit weight keeps its sign.
\<close>

theorem convert_plain_negative_loses_sign:
  "resultText (fst (convert g PIX_TO_NAI ''good'' ''bad'')) = ''good, bad'' \<and>
   map weight (shownSegments (fst (convert g PIX_TO_NAI ''good'' ''bad''))) =
     [Some (Num 1), Some (Num (- 1))] \<and>
   map segType (shownSegments (fst (convert g PIX_TO_NAI ''good'' ''bad''))) =
     [TextSeg, TextSeg] \<and>
   resultText (fst (convert g PIX_TO_NAI ''good'' ''(bad:1.4)'')) = ''good, -1.4::bad::''"
  by (simp add: conv_ev ser_ev pix_ev parse_ev str_ev num_ev show_ev)

text \<open>
  Claim C2. In the direction from Format A to Format B the segments of weight at least 0 go
  to the positive output and those of weight below 0 go, with the absolute value, to the
  negative output, and \<open>2::good::, -1::bad::\<close> gives the positive segment \<open>good\<close>
  of weight 2 and the negative segment \<open>bad\<close> of weight 1. The program does not give
  that split. The weight control expression has no place for a sign, so the minus is read as
  text: the scanner returns \<open>good\<close> with weight 2, a segment \<open>-\<close> with weight 1 and
  \<open>bad\<close> with weight 1, all three go to the positive output, and the negative output is
  empty. It is empty for every input, since \<open>parseNovelAI\<close> never returns a weight below
  0.
\<close>

theorem convert_signed_token_not_read:
  "fst (convert g NAI_TO_PIX ''2::good::, -1::bad::'' neg) =
     \<lparr>resultText = ''(good:2), -, bad'', resultNegativeText = [],
      shownSegments =
        [\<lparr>segId = g 0, segType = WeightSeg, raw = ''good'', content = Some ''good'',
          weight = Some (Num 2)\<rparr>,
         \<lparr>segId = g 1, segType = TextSeg, raw = ''-'', content = Some ''-'',
          weight = Some (Num 1)\<rparr>,
         \<lparr>segId = g 2, segType = TextSeg, raw = ''bad'', content = Some ''bad'',
          weight = Some (Num 1)\<rparr>]\<rparr> \<and>
   resultNegativeText (fst (convert g NAI_TO_PIX sourceText sourceNegativeText)) = []"
proof
  show "fst (convert g NAI_TO_PIX ''2::good::, -1::bad::'' neg) =
     \<lparr>resultText = ''(good:2), -, bad'', resultNegativeText = [],
      shownSegments =
        [\<lparr>segId = g 0, segType = WeightSeg, raw = ''good'', content = Some ''good'',
          weight = Some (Num 2)\<rparr>,
         \<lparr>segId = g 1, segType = TextSeg, raw = ''-'', content = Some ''-'',
          weight = Some (Num 1)\<rparr>,
         \<lparr>segId = g 2, segType = TextSeg, raw = ''bad'', content = Some ''bad'',
          weight = Some (Num 1)\<rparr>]\<rparr>"
    by (simp add: conv_ev ser_ev nai_ev parse_ev str_ev num_ev show_ev)
next
  show "resultNegativeText (fst (convert g NAI_TO_PIX sourceText sourceNegativeText)) = []"
    by (rule convert_negative_output_empty)
qed

text \<open>
  Claim C3. Every segment that \<open>parseNovelAI\<close> or \<open>parsePixAI\<close> produces carries a
  finite weight that is not \<open>NaN\<close>, for every input; a weight token whose number does not
  parse is treated as if it had no number; \<open>NaN\<close> and \<open>Infinity\<close> are never stored. As
  stated this fails: the number of a token is stored as \<open>parseFloat\<close> returns it and
  nothing clamps it, so a literal of 310 digits, which is beyond the doubles, is stored as
  \<open>Infinity\<close>.
\<close>

theorem long_literal_stored_as_infinity:
  "map weight (fst (parseNovelAI sampleIds (replicate 310 (CHR ''9'') @ ''::a''))) =
     [Some PosInf] \<and>
   map weight (fst (parsePixAI sampleIds (''(a:'' @ replicate 310 (CHR ''9'') @ '')''))) =
     [Some PosInf]"
proof
  let ?ds = "replicate 310 (CHR ''9'')"
  have d: "list_all isDigit ?ds" by (simp add: list_all_iff isDigit_def)
  have ne: "?ds \<noteq> []" by simp
  have nd: "\<not> isDigit (CHR '':'')" "\<not> isDigit (CHR '')'')" by (simp_all add: isDigit_def)
  have "matchWeightControl (?ds @ ''::a'') = Some (?ds, ''a'')"
    using takeWhile_digits_stop [OF d nd(1), of "'':a''"]
    by (simp add: matchWeightControl_def fraction_def)
  then have "naiLoop (?ds @ ''::a'') (initNovelAI sampleIds) =
      naiLoop ''a'' (weightControl ?ds (flushNovelAI (initNovelAI sampleIds)))"
    by (rule naiLoop_token)
  moreover have "weightControl ?ds (flushNovelAI (initNovelAI sampleIds)) =
      \<lparr>segments = [], curlyDepth = 0, squareDepth = 0, activeBaseWeight = PosInf, buffer = [],
       random = sampleIds\<rparr>"
    using ne by (simp add: weightControl_def parseFloat_nines flushNovelAI_def initNovelAI_def
        trim_def Let_def)
  ultimately have "segments (runNovelAI sampleIds (?ds @ ''::a'')) =
      [\<lparr>segId = sampleIds 0, segType = WeightSeg, raw = ''a'', content = Some ''a'',
        weight = Some PosInf\<rparr>]"
    by (simp add: runNovelAI_def nai_ev str_ev num_ev infOfSign_def)
  then show "map weight (fst (parseNovelAI sampleIds (?ds @ ''::a''))) = [Some PosInf]"
    by (simp add: parseNovelAI_def)
next
  let ?ds = "replicate 310 (CHR ''9'')"
  have d: "list_all isDigit ?ds" by (simp add: list_all_iff isDigit_def)
  have ne: "?ds \<noteq> []" by simp
  have nd: "\<not> isDigit (CHR '')'')" by (simp add: isDigit_def)
  have m: "matchExplicitWeight (''(a:'' @ ?ds @ '')'') = Some (''a'', ?ds, [])"
    using takeWhile_digits_stop [OF d nd, of "[]"] ne
    by (simp add: matchExplicitWeight_def fraction_def contentRun_colon)
  have "pixLoop (CHR ''('' # ''a:'' @ ?ds @ '')'') (initPixAI sampleIds) =
      pixLoop [] (explicitWeight ''a'' ?ds (initPixAI sampleIds))"
    using m by (intro pixLoop_match) simp
  then have "segmentsP (runPixAI sampleIds (''(a:'' @ ?ds @ '')'')) =
      [\<lparr>segId = sampleIds 0, segType = WeightSeg, raw = wholeMatch ''a'' ?ds,
        content = Some ''a'', weight = Some PosInf\<rparr>]"
    by (simp add: runPixAI_def explicitWeight_segments flushPixAI_segments flushPixAI_def
        initPixAI_def parseFloat_nines trim_def isSpace_def generateId_def Let_def)
  then show "map weight (fst (parsePixAI sampleIds (''(a:'' @ ?ds @ '')''))) = [Some PosInf]"
    by (simp add: parsePixAI_def)
qed

text \<open>
  Claim C3, amended. Every segment that \<open>parseNovelAI\<close> produces carries a finite weight
  when no run of digits in the text is longer than 200 and, all along the scan, the curly
  depth is at most 1000 and the square depth at least -1000; every segment that
  \<open>parsePixAI\<close> produces carries a finite weight when no run of digits in the text is
  longer than 200 and, all along the scan, the parenthesis depth is at most 1000. The
  depths stay in these bounds whenever the text has at most 1000 opening braces and at most
  1000 closing square brackets, respectively at most 1000 opening parentheses. The length of
  the text does not matter. For every input the number captured by a weight control token
  or an explicit weight token parses: the two expressions capture decimal literals only, so
  \<open>parseFloat\<close> never returns \<open>NaN\<close> on them and no fallback is taken.
\<close>

theorem bounded_input_finite_weights:
  "(longestDigitRun text \<le> 200 \<and> list_all depthsNovelAI (naiStates text (initNovelAI g)) \<longrightarrow>
      list_all finiteWeight (fst (parseNovelAI g text))) \<and>
   (longestDigitRun text' \<le> 200 \<and> list_all depthsPixAI (pixStates text' (initPixAI g')) \<longrightarrow>
      list_all finiteWeight (fst (parsePixAI g' text'))) \<and>
   (count_list text (CHR ''{'') \<le> 1000 \<and> count_list text (CHR '']'') \<le> 1000 \<longrightarrow>
      list_all depthsNovelAI (naiStates text (initNovelAI g))) \<and>
   (count_list text' (CHR ''('') \<le> 1000 \<longrightarrow>
      list_all depthsPixAI (pixStates text' (initPixAI g'))) \<and>
   (matchWeightControl s = Some (numStr, rest) \<and> numStr \<noteq> [] \<longrightarrow>
      \<not> isNaN (parseFloat numStr)) \<and>
   (matchExplicitWeight s' = Some (m, numStr', rest') \<longrightarrow> \<not> isNaN (parseFloat numStr'))"
  using parseNovelAI_finite parsePixAI_finite weightControl_parses explicitWeight_parses
    few_brackets_depthsNovelAI few_brackets_depthsPixAI
  by blast

theorem bounded_input_finite_weights_witness:
  "longestDigitRun ''{{tag}}, 1.5::[a]'' \<le> 200 \<and>
   list_all depthsNovelAI (naiStates ''{{tag}}, 1.5::[a]'' (initNovelAI sampleIds)) \<and>
   list_all finiteWeight (fst (parseNovelAI sampleIds ''{{tag}}, 1.5::[a]'')) \<and>
   longestDigitRun ''((b)), (a:1.5)'' \<le> 200 \<and>
   list_all depthsPixAI (pixStates ''((b)), (a:1.5)'' (initPixAI sampleIds)) \<and>
   list_all finiteWeight (fst (parsePixAI sampleIds ''((b)), (a:1.5)'')) \<and>
   count_list ''{{tag}}, 1.5::[a]'' (CHR ''{'') \<le> 1000 \<and>
   count_list ''{{tag}}, 1.5::[a]'' (CHR '']'') \<le> 1000 \<and>
   count_list ''((b)), (a:1.5)'' (CHR ''('') \<le> 1000 \<and>
   matchWeightControl ''1.5::a'' = Some (''1.5'', ''a'') \<and>
   \<not> isNaN (parseFloat ''1.5'') \<and>
   matchExplicitWeight ''(a:1.5)'' = Some (''a'', ''1.5'', [])"
proof -
  have a: "matchWeightControl ''1.5::a'' = Some (''1.5'', ''a'')"
    by (simp add: matchWeightControl_def str_ev)
  have b: "matchExplicitWeight ''(a:1.5)'' = Some (''a'', ''1.5'', [])"
    by (simp add: matchExplicitWeight_def str_ev)
  have c: "longestDigitRun ''{{tag}}, 1.5::[a]'' \<le> 200" "longestDigitRun ''((b)), (a:1.5)'' \<le> 200"
    by (simp_all add: isDigit_def)
  have d: "list_all depthsNovelAI (naiStates ''{{tag}}, 1.5::[a]'' (initNovelAI sampleIds))"
    by (simp add: naiStates.simps depthsNovelAI_def initNovelAI_def matchWeightControl_def
        charNovelAI_def weightControl_def str_ev)
  have e: "list_all depthsPixAI (pixStates ''((b)), (a:1.5)'' (initPixAI sampleIds))"
    by (simp add: pixStates.simps depthsPixAI_def initPixAI_def matchExplicitWeight_def
        charPixAI_def str_ev)
  have f: "''1.5'' \<noteq> []" by simp
  have h: "count_list ''{{tag}}, 1.5::[a]'' (CHR ''{'') \<le> 1000"
    "count_list ''{{tag}}, 1.5::[a]'' (CHR '']'') \<le> 1000"
    "count_list ''((b)), (a:1.5)'' (CHR ''('') \<le> 1000"
    by simp_all
  show ?thesis
    using a b c d e f h bounded_input_finite_weights
      [of "''{{tag}}, 1.5::[a]''" sampleIds "''((b)), (a:1.5)''" sampleIds "''1.5::a''" "''1.5''"
          "''a''" "''(a:1.5)''" "''a''" "''1.5''" "[]"]
    by blast
qed

text \<open>
  Claim C4. \<open>parseNovelAI\<close> gives each flushed segment the weight
  \<open>base_weight * 1.05^curly_depth * 0.95^square_depth\<close> rounded to two decimal places:
  a flush of a buffer that is not blank appends one segment with that weight, computed in
  doubles; the rounding returns the double nearest to \<open>k/100\<close> for an integer \<open>k\<close>, and
  \<open>k/100\<close> differs from the number rounded by at most 1/200 and the rounding error of
  the multiplication by 100; a plain tag behind \<open>n\<close> opening braces and \<open>m\<close> opening square brackets, closed
  or not, is the one segment of the result and has the weight \<open>1.05^n * 0.95^m\<close>, rounded;
  \<open>{{tag}}\<close> gives one segment of weight 1.1 and \<open>[tag]\<close> gives one segment of weight
  0.95. The numbers rounded are the doubles: \<open>1.5::[a]\<close> gives 1.42, the product
  \<open>1.5 * 0.95\<close> of doubles being just below 1.425, and \<open>1.005::a\<close> gives weight 1 and the
  type \<open>text\<close>.
\<close>

theorem novelai_flush_weight:
  "(trim (buffer st) \<noteq> [] \<longrightarrow>
      map weight (segments (flushNovelAI st)) =
        map weight (segments st) @
        [Some (roundWeight (js_mul (js_mul (activeBaseWeight st)
                                           (Math_pow (105 / 100) (curlyDepth st)))
                                   (Math_pow (95 / 100) (squareDepth st))))]) \<and>
   (0 \<le> r \<and> r \<le> 10 ^ 300 \<longrightarrow>
      (\<exists>k::int. roundWeight (Num r) = fromRat (of_int k / 100) \<and>
                \<bar>of_int k / 100 - r\<bar> \<le> 1 / 200 + r / 2 ^ 53)) \<and>
   (list_all tagChar tag \<and> trim tag \<noteq> [] \<and> list_all closer cl \<longrightarrow>
      map weight (fst (parseNovelAI g
        (replicate n (CHR ''{'') @ replicate m (CHR ''['') @ tag @ cl))) =
      [Some (roundWeight (js_mul (js_mul (Num 1) (Math_pow (105 / 100) (int n)))
                                 (Math_pow (95 / 100) (int m))))]) \<and>
   fst (parseNovelAI g ''{{tag}}'') =
     [\<lparr>segId = g 0, segType = WeightSeg, raw = ''tag'', content = Some ''tag'',
       weight = Some (fromRat (11 / 10))\<rparr>] \<and>
   fst (parseNovelAI g ''[tag]'') =
     [\<lparr>segId = g 0, segType = WeightSeg, raw = ''tag'', content = Some ''tag'',
       weight = Some (fromRat (95 / 100))\<rparr>] \<and>
   fst (parseNovelAI g ''1.5::[a]'') =
     [\<lparr>segId = g 0, segType = WeightSeg, raw = ''a'', content = Some ''a'',
       weight = Some (fromRat (142 / 100))\<rparr>] \<and>
   fst (parseNovelAI g ''1.005::a'') =
     [\<lparr>segId = g 0, segType = TextSeg, raw = ''a'', content = Some ''a'',
       weight = Some (Num 1)\<rparr>]"
proof (intro conjI impI)
  assume "trim (buffer st) \<noteq> []"
  then show "map weight (segments (flushNovelAI st)) =
        map weight (segments st) @
        [Some (roundWeight (js_mul (js_mul (activeBaseWeight st)
                                           (Math_pow (105 / 100) (curlyDepth st)))
                                   (Math_pow (95 / 100) (squareDepth st))))]"
    by (simp add: flushNovelAI_segments finalWeightNovelAI_def)
next
  assume "0 \<le> r \<and> r \<le> 10 ^ 300"
  then show "\<exists>k::int. roundWeight (Num r) = fromRat (of_int k / 100) \<and>
                \<bar>of_int k / 100 - r\<bar> \<le> 1 / 200 + r / 2 ^ 53"
    by (intro roundWeight_two_decimals) simp_all
next
  assume "list_all tagChar tag \<and> trim tag \<noteq> [] \<and> list_all closer cl"
  then show "map weight (fst (parseNovelAI g
        (replicate n (CHR ''{'') @ replicate m (CHR ''['') @ tag @ cl))) =
      [Some (roundWeight (js_mul (js_mul (Num 1) (Math_pow (105 / 100) (int n)))
                                 (Math_pow (95 / 100) (int m))))]"
    by (intro parseNovelAI_nested_tag) simp_all
next
  show "fst (parseNovelAI g ''{{tag}}'') =
     [\<lparr>segId = g 0, segType = WeightSeg, raw = ''tag'', content = Some ''tag'',
       weight = Some (fromRat (11 / 10))\<rparr>]"
    by (simp add: nai_ev str_ev num_ev)
next
  show "fst (parseNovelAI g ''[tag]'') =
     [\<lparr>segId = g 0, segType = WeightSeg, raw = ''tag'', content = Some ''tag'',
       weight = Some (fromRat (95 / 100))\<rparr>]"
    by (simp add: nai_ev str_ev num_ev)
next
  show "fst (parseNovelAI g ''1.5::[a]'') =
     [\<lparr>segId = g 0, segType = WeightSeg, raw = ''a'', content = Some ''a'',
       weight = Some (fromRat (142 / 100))\<rparr>]"
    by (simp add: nai_ev parse_ev str_ev num_ev)
next
  show "fst (parseNovelAI g ''1.005::a'') =
     [\<lparr>segId = g 0, segType = TextSeg, raw = ''a'', content = Some ''a'',
       weight = Some (Num 1)\<rparr>]"
    by (simp add: nai_ev parse_ev str_ev num_ev)
qed

theorem novelai_flush_weight_witness:
  "trim ''tag '' \<noteq> [] \<and>
   map weight (segments (flushNovelAI
     \<lparr>segments = [], curlyDepth = 2, squareDepth = - 1, activeBaseWeight = Num 2,
      buffer = ''tag '', random = sampleIds\<rparr>)) = [Some (fromRat (232 / 100))] \<and>
   (0::rat) \<le> 441 / 400 \<and> (441 / 400 :: rat) \<le> 10 ^ 300 \<and>
   (\<exists>k::int. roundWeight (Num (441 / 400)) = fromRat (of_int k / 100) \<and>
              \<bar>of_int k / 100 - (441 / 400 :: rat)\<bar> \<le> 1 / 200 + (441 / 400) / 2 ^ 53) \<and>
   list_all tagChar ''tag'' \<and> list_all closer ''}'' \<and>
   map weight (fst (parseNovelAI sampleIds
     (replicate 3 (CHR ''{'') @ replicate 1 (CHR ''['') @ ''tag'' @ ''}''))) =
   [Some (fromRat (11 / 10))]"
  using novelai_flush_weight
    [of "\<lparr>segments = [], curlyDepth = 2, squareDepth = - 1, activeBaseWeight = Num 2,
          buffer = ''tag '', random = sampleIds\<rparr>" "441 / 400" "''tag''" "''}''" sampleIds 3 1]
  by (simp add: str_ev num_ev tagChar_def closer_def)

text \<open>
  Claim C5. In \<open>parsePixAI\<close> a matching explicit weight token first flushes the pending
  buffer with the weight of the depths around it, then appends a segment whose weight is the
  number written in the token, not combined with the depths, which it leaves as they are;
  \<open>((tag:1.5))\<close> gives one segment of weight exactly 1.5.
\<close>

theorem pixai_explicit_weight_absolute:
  "(matchExplicitWeight (CHR ''('' # cs) = Some (m, numStr, rest) \<longrightarrow>
      pixLoop (CHR ''('' # cs) st = pixLoop rest (explicitWeight m numStr st) \<and>
      map weight (segmentsP (explicitWeight m numStr st)) =
        map weight (segmentsP st) @
        (if trim (bufferP st) = [] then []
         else [Some (roundWeight (js_mul (js_mul (Num 1) (Math_pow (11 / 10) (parenDepth st)))
                                         (Math_pow (9 / 10) (squareDepthP st))))]) @
        [Some (parseFloat numStr)] \<and>
      parenDepth (explicitWeight m numStr st) = parenDepth st \<and>
      squareDepthP (explicitWeight m numStr st) = squareDepthP st) \<and>
   fst (parsePixAI g ''((tag:1.5))'') =
     [\<lparr>segId = g 0, segType = WeightSeg, raw = ''(tag:1.5)'', content = Some ''tag'',
       weight = Some (Num (15 / 10))\<rparr>]"
proof (intro conjI impI)
  assume "matchExplicitWeight (CHR ''('' # cs) = Some (m, numStr, rest)"
  then show "pixLoop (CHR ''('' # cs) st = pixLoop rest (explicitWeight m numStr st)"
    by (rule pixLoop_match)
next
  show "map weight (segmentsP (explicitWeight m numStr st)) =
        map weight (segmentsP st) @
        (if trim (bufferP st) = [] then []
         else [Some (roundWeight (js_mul (js_mul (Num 1) (Math_pow (11 / 10) (parenDepth st)))
                                         (Math_pow (9 / 10) (squareDepthP st))))]) @
        [Some (parseFloat numStr)]"
    by (simp add: explicitWeight_segments flushPixAI_segments finalWeightPixAI_def)
next
  show "fst (parsePixAI g ''((tag:1.5))'') =
     [\<lparr>segId = g 0, segType = WeightSeg, raw = ''(tag:1.5)'', content = Some ''tag'',
       weight = Some (Num (15 / 10))\<rparr>]"
    by (simp add: pix_ev parse_ev str_ev num_ev)
qed simp_all

theorem pixai_explicit_weight_absolute_witness:
  "matchExplicitWeight ''(tag:1.5))'' = Some (''tag'', ''1.5'', '')'') \<and>
   pixLoop ''(tag:1.5))''
     \<lparr>segmentsP = [], parenDepth = 1, squareDepthP = 0, bufferP = ''a'', randomP = sampleIds\<rparr> =
   pixLoop '')'' (explicitWeight ''tag'' ''1.5''
     \<lparr>segmentsP = [], parenDepth = 1, squareDepthP = 0, bufferP = ''a'', randomP = sampleIds\<rparr>) \<and>
   map weight (segmentsP (explicitWeight ''tag'' ''1.5''
     \<lparr>segmentsP = [], parenDepth = 1, squareDepthP = 0, bufferP = ''a'', randomP = sampleIds\<rparr>)) =
   [Some (fromRat (11 / 10)), Some (Num (15 / 10))]"
proof -
  have m: "matchExplicitWeight ''(tag:1.5))'' = Some (''tag'', ''1.5'', '')'')"
    by (simp add: matchExplicitWeight_def str_ev)
  have p: "parseFloat ''1.5'' = Num (15 / 10)"
    by (simp add: parse_ev str_ev num_ev)
  show ?thesis
    using m p pixai_explicit_weight_absolute
      [of "''tag:1.5))''" "''tag''" "''1.5''" "'')''"
          "\<lparr>segmentsP = [], parenDepth = 1, squareDepthP = 0, bufferP = ''a'',
            randomP = sampleIds\<rparr>" sampleIds]
    by (simp add: str_ev num_ev)
qed

text \<open>
  Claim C6. In \<open>parseNovelAI\<close> every weight control token (a decimal number followed by
  \<open>::\<close>, or \<open>::\<close> alone) flushes the buffer and then sets both depth counters to zero,
  and a closing bracket takes one from its counter with no floor at zero, so that brackets
  closed after the token make the counter negative; \<open>2::tag}}\<close> is parsed to the one
  segment \<open>tag\<close> of weight 2 and leaves the curly depth at -2, and in \<open>2::a}b\<close> the
  negative depth lowers the weight of \<open>b\<close> to 1.9.
\<close>

theorem novelai_reset_no_floor:
  "(matchWeightControl (c # cs) = Some (numStr, rest) \<longrightarrow>
      naiLoop (c # cs) st = naiLoop rest (weightControl numStr (flushNovelAI st)) \<and>
      curlyDepth (weightControl numStr (flushNovelAI st)) = 0 \<and>
      squareDepth (weightControl numStr (flushNovelAI st)) = 0 \<and>
      buffer (weightControl numStr (flushNovelAI st)) = [] \<and>
      segments (weightControl numStr (flushNovelAI st)) = segments (flushNovelAI st)) \<and>
   naiLoop (CHR ''}'' # cs) st =
     naiLoop cs ((flushNovelAI st)\<lparr>curlyDepth := curlyDepth st - 1\<rparr>) \<and>
   naiLoop (CHR '']'' # cs) st =
     naiLoop cs ((flushNovelAI st)\<lparr>squareDepth := squareDepth st - 1\<rparr>) \<and>
   fst (parseNovelAI g ''2::tag}}'') =
     [\<lparr>segId = g 0, segType = WeightSeg, raw = ''tag'', content = Some ''tag'',
       weight = Some (Num 2)\<rparr>] \<and>
   curlyDepth (runNovelAI g ''2::tag}}'') = - 2 \<and>
   map weight (fst (parseNovelAI g ''2::a}b'')) = [Some (Num 2), Some (fromRat (19 / 10))]"
proof (intro conjI impI)
  assume "matchWeightControl (c # cs) = Some (numStr, rest)"
  then show "naiLoop (c # cs) st = naiLoop rest (weightControl numStr (flushNovelAI st))"
    by simp
next
  show "naiLoop (CHR ''}'' # cs) st =
     naiLoop cs ((flushNovelAI st)\<lparr>curlyDepth := curlyDepth st - 1\<rparr>)"
    by (simp add: charNovelAI_def Let_def)
next
  show "naiLoop (CHR '']'' # cs) st =
     naiLoop cs ((flushNovelAI st)\<lparr>squareDepth := squareDepth st - 1\<rparr>)"
    by (simp add: charNovelAI_def Let_def)
next
  show "fst (parseNovelAI g ''2::tag}}'') =
     [\<lparr>segId = g 0, segType = WeightSeg, raw = ''tag'', content = Some ''tag'',
       weight = Some (Num 2)\<rparr>]"
    by (simp add: nai_ev parse_ev str_ev num_ev)
next
  show "curlyDepth (runNovelAI g ''2::tag}}'') = - 2"
    by (simp add: nai_ev parse_ev str_ev num_ev)
next
  show "map weight (fst (parseNovelAI g ''2::a}b'')) = [Some (Num 2), Some (fromRat (19 / 10))]"
    by (simp add: nai_ev parse_ev str_ev num_ev)
qed simp_all

theorem novelai_reset_no_floor_witness:
  "matchWeightControl ''2::tag}}'' = Some (''2'', ''tag}}'') \<and>
   naiLoop ''2::tag}}''
     \<lparr>segments = [], curlyDepth = 3, squareDepth = 1, activeBaseWeight = Num 1,
      buffer = ''a'', random = sampleIds\<rparr> =
   naiLoop ''tag}}'' (weightControl ''2'' (flushNovelAI
     \<lparr>segments = [], curlyDepth = 3, squareDepth = 1, activeBaseWeight = Num 1,
      buffer = ''a'', random = sampleIds\<rparr>)) \<and>
   curlyDepth (weightControl ''2'' (flushNovelAI
     \<lparr>segments = [], curlyDepth = 3, squareDepth = 1, activeBaseWeight = Num 1,
      buffer = ''a'', random = sampleIds\<rparr>)) = 0 \<and>
   squareDepth (weightControl ''2'' (flushNovelAI
     \<lparr>segments = [], curlyDepth = 3, squareDepth = 1, activeBaseWeight = Num 1,
      buffer = ''a'', random = sampleIds\<rparr>)) = 0"
proof -
  have m: "matchWeightControl ''2::tag}}'' = Some (''2'', ''tag}}'')"
    by (simp add: matchWeightControl_def str_ev)
  show ?thesis
    using m novelai_reset_no_floor
      [of "CHR ''2''" "''::tag}}''" "''2''" "''tag}}''"
          "\<lparr>segments = [], curlyDepth = 3, squareDepth = 1, activeBaseWeight = Num 1,
            buffer = ''a'', random = sampleIds\<rparr>" sampleIds]
    by simp
qed

text \<open>
  Claim C7. For every segment list whose weights are written in the two decimal override
  form, \<open>parsePixAI\<close> applied to \<open>segmentsToPixAI\<close> of the list gives the weights of
  the list back, each within 0.01. As stated this fails. The serializer escapes parentheses
  and nothing else, so a content with a colon is printed as a token that the explicit weight
  expression does not match, and the content is read back with the weight of one level of
  parentheses: 1.1 for the weight 1.5. A weight of 0 is printed as weight 1.
\<close>

theorem format_b_round_trip_fails:
  "\<not> list_all2 closeWeight
       (map weight (fst (parsePixAI sampleIds (segmentsToPixAI
          [\<lparr>segId = [], segType = WeightSeg, raw = ''a:b'', content = Some ''a:b'',
            weight = Some (Num (15 / 10))\<rparr>]))))
       [Some (Num (15 / 10))] \<and>
   \<not> list_all2 closeWeight
       (map weight (fst (parsePixAI sampleIds (segmentsToPixAI
          [\<lparr>segId = [], segType = WeightSeg, raw = ''(a:0)'', content = Some ''a'',
            weight = Some (Num 0)\<rparr>]))))
       [Some (Num 0)]"
  by (simp add: closeWeight_def ser_ev show_ev pix_ev parse_ev str_ev num_ev)

text \<open>
  Claim C7, amended. For every segment list in which each content is not blank and has no
  comma, square bracket, colon or backslash (parentheses are allowed) and each weight is a
  positive number of whole hundredths below \<open>10^21\<close> (the double nearest to it, as
  \<open>roundWeight\<close> returns it), \<open>parsePixAI\<close> applied to \<open>segmentsToPixAI\<close> of the list
  gives exactly the weights of the list, in order.
\<close>

theorem format_b_round_trip:
  assumes "list_all roundTripSegment segs"
  shows "map weight (fst (parsePixAI g (segmentsToPixAI segs))) = map weight segs"
proof (cases "segs = []")
  case True
  then show ?thesis by (simp add: segmentsToPixAI_def parsePixAI_def)
next
  case False
  have "filter hasContent segs = segs"
    using assms by (auto simp: list_all_iff roundTrip_hasContent intro: filter_True)
  moreover have "atRest (initPixAI g)" by (simp add: atRest_def initPixAI_def)
  ultimately show ?thesis
    using join_scan [OF assms False, of "initPixAI g"]
    by (simp add: parsePixAI_run runPixAI_def segmentsToPixAI_def initPixAI_def)
qed

theorem format_b_round_trip_witness:
  "list_all roundTripSegment
     [\<lparr>segId = [], segType = WeightSeg, raw = ''a (b)'', content = Some ''a (b)'',
       weight = Some (fromRat (14 / 10))\<rparr>,
      \<lparr>segId = [], segType = TextSeg, raw = ''c'', content = Some ''c'',
       weight = Some (Num 1)\<rparr>] \<and>
   map weight (fst (parsePixAI sampleIds (segmentsToPixAI
     [\<lparr>segId = [], segType = WeightSeg, raw = ''a (b)'', content = Some ''a (b)'',
       weight = Some (fromRat (14 / 10))\<rparr>,
      \<lparr>segId = [], segType = TextSeg, raw = ''c'', content = Some ''c'',
       weight = Some (Num 1)\<rparr>]))) =
   [Some (fromRat (14 / 10)), Some (Num 1)]"
proof -
  have h: "list_all roundTripSegment
     [\<lparr>segId = [], segType = WeightSeg, raw = ''a (b)'', content = Some ''a (b)'',
       weight = Some (fromRat (14 / 10))\<rparr>,
      \<lparr>segId = [], segType = TextSeg, raw = ''c'', content = Some ''c'',
       weight = Some (Num 1)\<rparr>]"
    by (simp add: roundTripSegment_def plainContent_def plainChar_def roundTripWeight_def
        trim_def isSpace_def num_ev)
  show ?thesis
    using h format_b_round_trip [OF h, of sampleIds] by simp
qed

text \<open>
  Claim C8. Every segment that \<open>parseNovelAI\<close> or \<open>parsePixAI\<close> emits has a content
  that is not empty after trimming, the segments of the explicit weight path included. The
  explicit weight path of \<open>parsePixAI\<close> does not keep this: it trims the captured content
  and appends the segment without the test that the flush makes, so \<open>( :2)\<close> gives a
  segment with the empty content.
\<close>

theorem pixai_override_empty_content:
  "fst (parsePixAI g ''( :2)'') =
     [\<lparr>segId = g 0, segType = WeightSeg, raw = ''( :2)'', content = Some [],
       weight = Some (Num 2)\<rparr>]"
  by (simp add: pix_ev parse_ev str_ev num_ev)

text \<open>
  Claim C9. Both serializers skip every segment whose trimmed content is empty and join the
  rendered tags with a comma and a space. \<open>segmentsToPixAI\<close> does; \<open>segmentsToNovelAI\<close>
  has no filter and renders every segment. On the list that \<open>parsePixAI\<close> returns for
  \<open>a, ( :2)\<close> the first gives \<open>a\<close> and the second gives \<open>a, 2::::\<close>.
\<close>

theorem novelai_serializer_keeps_empty:
  "segmentsToNovelAI
     [\<lparr>segId = i, segType = TextSeg, raw = ''a'', content = Some ''a'', weight = Some (Num 1)\<rparr>,
      \<lparr>segId = j, segType = WeightSeg, raw = ''( :2)'', content = Some [],
       weight = Some (Num 2)\<rparr>] = ''a, 2::::'' \<and>
   segmentsToPixAI
     [\<lparr>segId = i, segType = TextSeg, raw = ''a'', content = Some ''a'', weight = Some (Num 1)\<rparr>,
      \<lparr>segId = j, segType = WeightSeg, raw = ''( :2)'', content = Some [],
       weight = Some (Num 2)\<rparr>] = ''a'' \<and>
   resultText (fst (convert g PIX_TO_NAI ''a, ( :2)'' [])) = ''a, 2::::''"
  by (simp add: conv_ev ser_ev pix_ev parse_ev str_ev num_ev show_ev)

text \<open>
  Claim C10. \<open>parseNovelAI\<close> and \<open>parsePixAI\<close> are pure functions of the text: two
  calls on the same input return identical segment sequences, and no shared state is read
  or written. As stated this fails: every segment carries an identifier drawn from
  \<open>Math.random\<close>, so a call reads and advances the generator and a second call on the
  same text returns other identifiers.
\<close>

theorem parse_twice_differs:
  "fst (parseNovelAI sampleIds ''a'') \<noteq>
     fst (parseNovelAI (snd (parseNovelAI sampleIds ''a'')) ''a'') \<and>
   fst (parsePixAI sampleIds ''a'') \<noteq>
     fst (parsePixAI (snd (parsePixAI sampleIds ''a'')) ''a'') \<and>
   snd (parseNovelAI sampleIds ''a'') 0 \<noteq> sampleIds 0 \<and>
   snd (parsePixAI sampleIds ''a'') 0 \<noteq> sampleIds 0"
  by (simp add: nai_ev pix_ev str_ev num_ev sampleIds_def)

text \<open>
  Claim C10, amended. Whatever the state of the generator, the segment sequences that two
  calls on the same text return are identical at every position in type, raw text, content
  and weight. The identifier is the one field that depends on the generator:
  \<open>generateId\<close> is called once for each segment appended and at no other time, so the
  segments of a call carry the first values the generator yields, in order, and the call
  leaves the generator advanced by the number of its segments. A call that returns no
  segment, as on the text of a comma and a space, leaves the generator as it found it.
\<close>

theorem parse_same_but_ids:
  "map withoutId (fst (parseNovelAI g1 text)) = map withoutId (fst (parseNovelAI g2 text)) \<and>
   map withoutId (fst (parsePixAI g1 text)) = map withoutId (fst (parsePixAI g2 text)) \<and>
   map segId (fst (parseNovelAI g text)) = map g [0..<length (fst (parseNovelAI g text))] \<and>
   snd (parseNovelAI g text) = (\<lambda>i. g (i + length (fst (parseNovelAI g text)))) \<and>
   map segId (fst (parsePixAI g text)) = map g [0..<length (fst (parsePixAI g text))] \<and>
   snd (parsePixAI g text) = (\<lambda>i. g (i + length (fst (parsePixAI g text)))) \<and>
   parseNovelAI g '', '' = ([], g) \<and>
   parsePixAI g '', '' = ([], g)"
proof (intro conjI)
  have "viewNovelAI (initNovelAI g1) = viewNovelAI (initNovelAI g2)"
    by (simp add: viewNovelAI_def initNovelAI_def)
  then have "viewNovelAI (runNovelAI g1 text) = viewNovelAI (runNovelAI g2 text)"
    unfolding runNovelAI_def by (intro view_flushNovelAI view_naiLoop)
  then show "map withoutId (fst (parseNovelAI g1 text)) = map withoutId (fst (parseNovelAI g2 text))"
    by (simp add: parseNovelAI_def viewNovelAI_def)
next
  have "viewPixAI (initPixAI g1) = viewPixAI (initPixAI g2)"
    by (simp add: viewPixAI_def initPixAI_def)
  then have "viewPixAI (runPixAI g1 text) = viewPixAI (runPixAI g2 text)"
    unfolding runPixAI_def by (intro view_flushPixAI view_pixLoop)
  then show "map withoutId (fst (parsePixAI g1 text)) = map withoutId (fst (parsePixAI g2 text))"
    by (simp add: parsePixAI_def viewPixAI_def)
next
  show "map segId (fst (parseNovelAI g text)) = map g [0..<length (fst (parseNovelAI g text))]"
    using parseNovelAI_draws [of g "text"] by (simp add: drawnFrom_def)
next
  show "snd (parseNovelAI g text) = (\<lambda>i. g (i + length (fst (parseNovelAI g text))))"
    using parseNovelAI_draws [of g "text"] by (simp add: drawnFrom_def)
next
  show "map segId (fst (parsePixAI g text)) = map g [0..<length (fst (parsePixAI g text))]"
    using parsePixAI_draws [of g "text"] by (simp add: drawnFrom_def)
next
  show "snd (parsePixAI g text) = (\<lambda>i. g (i + length (fst (parsePixAI g text))))"
    using parsePixAI_draws [of g "text"] by (simp add: drawnFrom_def)
next
  show "parseNovelAI g '', '' = ([], g)"
    by (simp add: nai_ev str_ev)
next
  show "parsePixAI g '', '' = ([], g)"
    by (simp add: pix_ev str_ev)
qed

end
